theory Spec2Isabelle
  imports Main "HOL-Library.Word"
begin

section \<open>The tensor transfer core of x10 (tensor\_util.cpp)\<close>

text \<open>
  A shallow embedding of \<^verbatim>\<open>Sources/x10/xla_tensor/tensor_util.cpp\<close>. Every C++
  function that a property below talks about is a HOL function of the same name.
  \<^item> \<^verbatim>\<open>XLA_ERROR\<close> and a failed \<^verbatim>\<open>XLA_CHECK\<close> are the \<open>Inl\<close> of a sum
    \<open>error + 'a\<close>.
  \<^item> An unchecked access outside a vector and an integer division by zero have no defined
    behaviour in C++; the model stops there with \<open>Inl OutOfRange\<close> or
    \<open>Inl DivideByZero\<close>, so that no theorem can rest on what HOL returns for
    \<open>xs ! i\<close> or \<open>a div 0\<close>.
  \<^item> A \<^verbatim>\<open>while\<close> loop whose termination is not evident from its text is a
    \<^theory_text>\<open>partial_function (option)\<close>: \<open>None\<close> is "does not return".
  \<^item> \<^verbatim>\<open>xla::int64\<close> values are sizes, indices and strides here. Dimension sizes,
    indices and offsets into buffers are natural numbers, with the sentinel \<^verbatim>\<open>-1\<close> of
    \<^verbatim>\<open>max_dim\<close> written as \<open>None\<close>. The strides of \<^verbatim>\<open>ComputeShapeStrides\<close>, a
    function that any shape can be passed to, are 64-bit words whose product wraps around
    as the machine multiplication does. The functions of the copy engine are reached only
    with the dimensions of a buffer that exists; their products of dimension sizes are
    taken without wrap-around.
\<close>

subsection \<open>Enumerations\<close>

text \<open>\<^verbatim>\<open>enum DeviceType\<close> of device\_wrapper.h, with the names the C++ side uses.\<close>

datatype DeviceType = CPU | GPU | TPU | REMOTE_TPU

record Device =
  hw_type :: DeviceType
  ordinal :: int

text \<open>
  \<^verbatim>\<open>at::ScalarType\<close>. The nine kinds that the switches of tensor\_util.cpp name, and
  \<open>Half\<close> for a kind that every switch sends to its \<^verbatim>\<open>default\<close> branch.
\<close>

datatype ScalarType =
  Byte | Char_t | Short | Int_t | Long | Half | Float | Double | Bool | BFloat16

text \<open>\<^verbatim>\<open>xla::PrimitiveType\<close>.\<close>

datatype PrimitiveType =
  PRIMITIVE_TYPE_INVALID | PRED | S8 | S16 | S32 | S64 | U8 | U16 | U32 | U64
  | F16 | F32 | BF16 | F64 | C64 | C128 | TUPLE | OPAQUE_TYPE | TOKEN

datatype error =
  TypeUnsupported | ShapeMismatch | BufferSizeMismatch | ShapeUnsupported
  | OutOfRange | DivideByZero

text \<open>
  The two process-wide toggles. \<^verbatim>\<open>UseBF16()\<close> and \<^verbatim>\<open>Use32BitLong()\<close> read the
  environment once and cache the answer; the model passes the cached answers along.
\<close>

record Config =
  UseBF16 :: bool
  Use32BitLong :: bool

text \<open>
  Modelled from the spec: \<^verbatim>\<open>GetDeviceOrCurrent\<close> (device.cpp is not among the sources)
  resolves a null device pointer to the current device, given here as \<open>cur\<close>.
\<close>

definition GetDeviceOrCurrent :: "Device \<Rightarrow> Device option \<Rightarrow> Device" where
  "GetDeviceOrCurrent cur device = (case device of None \<Rightarrow> cur | Some d \<Rightarrow> d)"

subsection \<open>Type mapper\<close>

fun XlaTypeFromTensorType :: "ScalarType \<Rightarrow> Device \<Rightarrow> error + PrimitiveType" where
  "XlaTypeFromTensorType Double device = Inr (if hw_type device \<noteq> TPU then F64 else F32)"
| "XlaTypeFromTensorType Float device = Inr F32"
| "XlaTypeFromTensorType BFloat16 device = Inr BF16"
| "XlaTypeFromTensorType Bool device = Inr PRED"
| "XlaTypeFromTensorType Byte device = Inr U8"
| "XlaTypeFromTensorType Char_t device = Inr S8"
| "XlaTypeFromTensorType Short device = Inr S16"
| "XlaTypeFromTensorType Int_t device = Inr S32"
| "XlaTypeFromTensorType Long device = Inr S64"
| "XlaTypeFromTensorType Half device = Inl TypeUnsupported"

fun TensorTypeFromXlaType :: "Config \<Rightarrow> PrimitiveType \<Rightarrow> error + ScalarType" where
  "TensorTypeFromXlaType cfg BF16 = (if \<not> UseBF16 cfg then Inr BFloat16 else Inr Float)"
| "TensorTypeFromXlaType cfg F32 = Inr Float"
| "TensorTypeFromXlaType cfg F64 = Inr Double"
| "TensorTypeFromXlaType cfg PRED = Inr Bool"
| "TensorTypeFromXlaType cfg U8 = Inr Byte"
| "TensorTypeFromXlaType cfg S8 = Inr Char_t"
| "TensorTypeFromXlaType cfg S16 = Inr Short"
| "TensorTypeFromXlaType cfg U16 = Inr Short"
| "TensorTypeFromXlaType cfg S32 = Inr Int_t"
| "TensorTypeFromXlaType cfg U32 = Inr Int_t"
| "TensorTypeFromXlaType cfg S64 = Inr Long"
| "TensorTypeFromXlaType cfg U64 = Inr Long"
| "TensorTypeFromXlaType cfg _ = Inl TypeUnsupported"

fun TensorTypeToRawXlaType :: "ScalarType \<Rightarrow> error + PrimitiveType" where
  "TensorTypeToRawXlaType Double = Inr F64"
| "TensorTypeToRawXlaType Float = Inr F32"
| "TensorTypeToRawXlaType BFloat16 = Inr BF16"
| "TensorTypeToRawXlaType Bool = Inr PRED"
| "TensorTypeToRawXlaType Byte = Inr U8"
| "TensorTypeToRawXlaType Char_t = Inr S8"
| "TensorTypeToRawXlaType Short = Inr S16"
| "TensorTypeToRawXlaType Int_t = Inr S32"
| "TensorTypeToRawXlaType Long = Inr S64"
| "TensorTypeToRawXlaType Half = Inl TypeUnsupported"

fun GetDevicePrimitiveType ::
  "Config \<Rightarrow> Device \<Rightarrow> PrimitiveType \<Rightarrow> Device option \<Rightarrow> PrimitiveType" where
  "GetDevicePrimitiveType cfg cur F64 device =
     (if UseBF16 cfg then BF16
      else if hw_type (GetDeviceOrCurrent cur device) \<noteq> TPU then F64 else F32)"
| "GetDevicePrimitiveType cfg cur F32 device = (if UseBF16 cfg then BF16 else F32)"
| "GetDevicePrimitiveType cfg cur U8 device =
     (if hw_type (GetDeviceOrCurrent cur device) \<noteq> TPU then U8 else U32)"
| "GetDevicePrimitiveType cfg cur S8 device =
     (if hw_type (GetDeviceOrCurrent cur device) \<noteq> TPU then S8 else S32)"
| "GetDevicePrimitiveType cfg cur U16 device =
     (if hw_type (GetDeviceOrCurrent cur device) \<noteq> TPU then U16 else U32)"
| "GetDevicePrimitiveType cfg cur S16 device =
     (if hw_type (GetDeviceOrCurrent cur device) \<noteq> TPU then S16 else S32)"
| "GetDevicePrimitiveType cfg cur S64 device = (if Use32BitLong cfg then S32 else S64)"
| "GetDevicePrimitiveType cfg cur U64 device = (if Use32BitLong cfg then U32 else U64)"
| "GetDevicePrimitiveType cfg cur C128 device =
     (if hw_type (GetDeviceOrCurrent cur device) \<noteq> TPU then C128 else C64)"
| "GetDevicePrimitiveType cfg cur type device = type"

fun MakeXlaPrimitiveType ::
  "Config \<Rightarrow> Device \<Rightarrow> ScalarType \<Rightarrow> Device option \<Rightarrow> error + PrimitiveType" where
  "MakeXlaPrimitiveType cfg cur Double device = Inr (GetDevicePrimitiveType cfg cur F64 device)"
| "MakeXlaPrimitiveType cfg cur Float device = Inr (GetDevicePrimitiveType cfg cur F32 device)"
| "MakeXlaPrimitiveType cfg cur BFloat16 device = Inr (GetDevicePrimitiveType cfg cur BF16 device)"
| "MakeXlaPrimitiveType cfg cur Bool device = Inr (GetDevicePrimitiveType cfg cur PRED device)"
| "MakeXlaPrimitiveType cfg cur Byte device = Inr (GetDevicePrimitiveType cfg cur U8 device)"
| "MakeXlaPrimitiveType cfg cur Char_t device = Inr (GetDevicePrimitiveType cfg cur S8 device)"
| "MakeXlaPrimitiveType cfg cur Short device = Inr (GetDevicePrimitiveType cfg cur S16 device)"
| "MakeXlaPrimitiveType cfg cur Int_t device = Inr (GetDevicePrimitiveType cfg cur S32 device)"
| "MakeXlaPrimitiveType cfg cur Long device = Inr (GetDevicePrimitiveType cfg cur S64 device)"
| "MakeXlaPrimitiveType cfg cur Half device = Inl TypeUnsupported"

text \<open>
  The promotion table of section 4.1 of the specification, following its words: the BF16
  rule when BF16 mode is enabled, else the TPU rules on a TPU, then the 32-bit-long rule,
  otherwise the identity.
\<close>

definition spec_promotion_table :: "Config \<Rightarrow> DeviceType \<Rightarrow> PrimitiveType \<Rightarrow> PrimitiveType" where
  "spec_promotion_table cfg hw p =
     (if UseBF16 cfg \<and> (p = F32 \<or> p = F64) then BF16
      else if \<not> UseBF16 cfg \<and> hw = TPU \<and> p = F64 then F32
      else if \<not> UseBF16 cfg \<and> hw = TPU \<and> (p = U8 \<or> p = U16) then U32
      else if \<not> UseBF16 cfg \<and> hw = TPU \<and> (p = S8 \<or> p = S16) then S32
      else if Use32BitLong cfg \<and> p = S64 then S32
      else if Use32BitLong cfg \<and> p = U64 then U32
      else p)"

subsection \<open>Shapes\<close>

text \<open>
  \<^verbatim>\<open>xla::Shape\<close>: element type, dimension sizes, the layout's minor-to-major list and,
  for a tuple, the component shapes. \<^verbatim>\<open>rank()\<close> is the number of dimensions.
\<close>

datatype Shape =
  MkShape (element_type: PrimitiveType) (dimensions: "nat list")
    (minor_to_major: "nat list") (tuple_shapes: "Shape list")

definition IsTuple :: "Shape \<Rightarrow> bool" where
  "IsTuple shape = (element_type shape = TUPLE)"

definition rank :: "Shape \<Rightarrow> nat" where
  "rank shape = length (dimensions shape)"

text \<open>The loop of \<^verbatim>\<open>GetComponentShapes\<close> over the tuple's components.\<close>

fun component_loop :: "Shape list \<Rightarrow> Shape list \<Rightarrow> error + Shape list" where
  "component_loop [] component_shapes = Inr component_shapes"
| "component_loop (component_shape # rest) component_shapes =
     (if IsTuple component_shape then Inl ShapeUnsupported
      else component_loop rest (component_shapes @ [component_shape]))"

definition GetComponentShapes :: "Shape \<Rightarrow> error + Shape list" where
  "GetComponentShapes shape =
     (if IsTuple shape then component_loop (tuple_shapes shape) [] else Inr [shape])"

subsection \<open>Strides\<close>

text \<open>
  \<^verbatim>\<open>xla::int64\<close> as a machine integer: a 64-bit word, read as a signed number by
  \<open>sint\<close>. Multiplication of words keeps the low 64 bits of the product.
\<close>

type_synonym int64 = "64 word"

text \<open>
  The loop of \<^verbatim>\<open>ComputeShapeStrides\<close> over the minor-to-major list. The vector
  \<open>strides\<close> has \<^verbatim>\<open>shape.rank()\<close> entries, the number of dimensions, all zero at
  first. \<^verbatim>\<open>stride *= shape.dimensions(dim)\<close> is a product of two \<^verbatim>\<open>xla::int64\<close>:
  the dimension size is taken as a word and the product wraps around.
\<close>

fun strides_loop :: "nat list \<Rightarrow> nat list \<Rightarrow> int64 list \<Rightarrow> int64 \<Rightarrow> error + int64 list" where
  "strides_loop dims [] strides stride = Inr strides"
| "strides_loop dims (dim # rest) strides stride =
     (if dim < length strides \<and> dim < length dims
      then strides_loop dims rest (strides[dim := stride]) (stride * of_nat (dims ! dim))
      else Inl OutOfRange)"

definition ComputeShapeStrides :: "Shape \<Rightarrow> error + int64 list" where
  "ComputeShapeStrides shape =
     strides_loop (dimensions shape) (minor_to_major shape) (replicate (rank shape) 0) 1"

subsection \<open>Iteration dimensions\<close>

text \<open>
  \<^verbatim>\<open>GetIterationDimensions\<close>: \<open>iter_loop\<close> is its \<^verbatim>\<open>for\<close> loop over the entries
  \<open>1, 2, \<dots>\<close> of the minor-to-major list, \<open>i\<close> the position of the entry at hand; the
  result swaps the entries at \<open>0\<close> and \<open>index\<close>.
\<close>

definition kMinorDimScale :: nat where "kMinorDimScale = 8"

fun iter_loop :: "nat list \<Rightarrow> nat list \<Rightarrow> nat \<Rightarrow> nat \<Rightarrow> nat \<Rightarrow> error + nat" where
  "iter_loop dims [] i index scaled_dim_size = Inr index"
| "iter_loop dims (dim # rest) i index scaled_dim_size =
     (if dim < length dims
      then (if dims ! dim > scaled_dim_size then iter_loop dims rest (i + 1) i (dims ! dim)
            else iter_loop dims rest (i + 1) index scaled_dim_size)
      else Inl OutOfRange)"

definition GetIterationDimensions :: "Shape \<Rightarrow> error + nat list" where
  "GetIterationDimensions shape =
     (let iter_dims = minor_to_major shape in
      case iter_dims of
        [] \<Rightarrow> Inl OutOfRange
      | d0 # rest \<Rightarrow>
          if d0 < rank shape then
            (case iter_loop (dimensions shape) rest 1 0 (kMinorDimScale * dimensions shape ! d0) of
               Inl e \<Rightarrow> Inl e
             | Inr index \<Rightarrow> Inr (iter_dims[0 := iter_dims ! index, index := iter_dims ! 0]))
          else Inl OutOfRange)"

text \<open>
  The selection as the specification words it (section 4.3, step 1): the threshold is 8
  times the size of the current inner dimension, and the chosen dimension moves to the front.
\<close>

fun spec_inner_walk :: "nat list \<Rightarrow> nat list \<Rightarrow> nat \<Rightarrow> nat" where
  "spec_inner_walk dims [] inner = inner"
| "spec_inner_walk dims (dim # rest) inner =
     (if dims ! dim > 8 * dims ! inner then spec_inner_walk dims rest dim
      else spec_inner_walk dims rest inner)"

definition spec_iteration_dimensions :: "Shape \<Rightarrow> nat list" where
  "spec_iteration_dimensions shape =
     (case minor_to_major shape of
        [] \<Rightarrow> []
      | d0 # rest \<Rightarrow>
          (let inner = spec_inner_walk (dimensions shape) rest d0
           in inner # remove1 inner (minor_to_major shape)))"

subsection \<open>Copy partitions\<close>

text \<open>
  \<^verbatim>\<open>struct CopyPartition\<close>; its constructor sets \<open>base\<close> to zeros and \<open>limit\<close> to the
  dimension sizes.
\<close>

record CopyPartition =
  base :: "nat list"
  limit :: "nat list"

definition CopyPartition_init :: "nat list \<Rightarrow> CopyPartition" where
  "CopyPartition_init dims = \<lparr>base = replicate (length dims) 0, limit = dims\<rparr>"

text \<open>
  \<^verbatim>\<open>CreateCopyPartitions\<close>. \<open>find_max_dim\<close> is the search for the largest dimension other
  than the strided copy dimension (\<open>None\<close> is the initial \<^verbatim>\<open>-1\<close>, and reading
  \<^verbatim>\<open>dimensions[-1]\<close> stops with \<open>OutOfRange\<close>); \<open>parts_loop\<close> is the \<^verbatim>\<open>while\<close> loop.
  \<open>hardware_concurrency\<close> is what \<^verbatim>\<open>std::thread::hardware_concurrency()\<close> returns.
\<close>

definition kMinThreadElements :: nat where "kMinThreadElements = 100000"

definition max_dim_step :: "nat list \<Rightarrow> nat \<Rightarrow> nat \<Rightarrow> nat option \<Rightarrow> nat option" where
  "max_dim_step dims strided_copy_dimension i max_dim =
     (if i \<noteq> strided_copy_dimension \<and>
         (case max_dim of None \<Rightarrow> True | Some m \<Rightarrow> dims ! i > dims ! m)
      then Some i else max_dim)"

definition find_max_dim :: "nat list \<Rightarrow> nat \<Rightarrow> nat option" where
  "find_max_dim dims strided_copy_dimension =
     fold (max_dim_step dims strided_copy_dimension) [0..<length dims] None"

partial_function (option) parts_loop ::
  "nat list \<Rightarrow> nat \<Rightarrow> nat \<Rightarrow> nat \<Rightarrow> nat \<Rightarrow> CopyPartition list \<Rightarrow> CopyPartition list option" where
  "parts_loop dims max_dim part_size max_dim_size csize parts =
     (if csize < max_dim_size then
        (let n = min part_size (max_dim_size - csize);
             p = CopyPartition_init dims;
             p = p\<lparr>base := (base p)[max_dim := csize]\<rparr>;
             p = p\<lparr>limit := (limit p)[max_dim := csize + n]\<rparr>
         in parts_loop dims max_dim part_size max_dim_size (csize + n) (parts @ [p]))
      else Some parts)"

declare parts_loop.simps [code]

definition CreateCopyPartitions ::
  "nat \<Rightarrow> nat list \<Rightarrow> nat \<Rightarrow> (error + CopyPartition list) option" where
  "CreateCopyPartitions hardware_concurrency dims strided_copy_dimension =
     (let max_parts = max (hardware_concurrency div 2) 1 in
      case find_max_dim dims strided_copy_dimension of
        None \<Rightarrow> Some (Inl OutOfRange)
      | Some max_dim \<Rightarrow>
          if dims ! max_dim = 0 then Some (Inl DivideByZero)
          else
            (let num_elements = prod_list dims;
                 max_dim_unit_elements = num_elements div dims ! max_dim;
                 max_dim_size = dims ! max_dim
             in if max_dim_unit_elements = 0 then Some (Inl DivideByZero)
                else
                  (let part_size = max (max (max_dim_size div max_parts) 1)
                                       (kMinThreadElements div max_dim_unit_elements)
                   in map_option Inr
                        (parts_loop dims max_dim part_size max_dim_size 0 []))))"


text \<open>The part size as the specification words it (section 4.3, step 2).\<close>

definition spec_part_size :: "nat \<Rightarrow> nat list \<Rightarrow> nat \<Rightarrow> nat" where
  "spec_part_size hardware_concurrency dims split_dim =
     (let max_parts = max 1 (hardware_concurrency div 2);
          min_elements_per_task = 100000;
          split_dim_size = dims ! split_dim;
          total = prod_list dims
      in max (split_dim_size div max_parts) (min_elements_per_task div (total div split_dim_size)))"

text \<open>
  The \<open>k\<close>-th tile of width \<open>ps\<close> of dimension \<open>m\<close>, counted from \<open>c\<close>: the closed form
  of what one pass of \<open>parts_loop\<close> appends.
\<close>

definition tile :: "nat list \<Rightarrow> nat \<Rightarrow> nat \<Rightarrow> nat \<Rightarrow> nat \<Rightarrow> CopyPartition" where
  "tile dims m ps c k =
     \<lparr>base = (replicate (length dims) 0)[m := c + k * ps],
      limit = dims[m := min (c + (k + 1) * ps) (dims ! m)]\<rparr>"


subsection \<open>Copy engine\<close>

text \<open>
  The element types that instantiate \<^verbatim>\<open>SType\<close> and \<^verbatim>\<open>DType\<close> of the copy templates, with
  their sizes in bytes. A buffer of such elements is a list of values of a type \<open>'e\<close>; the
  value of a C++ conversion between two different element types is given by \<open>conv\<close>, and a
  conversion from a type to itself returns its argument.
\<close>

datatype CType =
  c_bool | c_uint8 | c_int8 | c_int16 | c_uint16 | c_int32 | c_uint32 | c_int64 | c_uint64
  | c_float | c_double | at_BFloat16 | tf_bfloat16

fun sizeof :: "CType \<Rightarrow> nat" where
  "sizeof c_bool = 1"
| "sizeof c_uint8 = 1"
| "sizeof c_int8 = 1"
| "sizeof c_int16 = 2"
| "sizeof c_uint16 = 2"
| "sizeof c_int32 = 4"
| "sizeof c_uint32 = 4"
| "sizeof c_int64 = 8"
| "sizeof c_uint64 = 8"
| "sizeof c_float = 4"
| "sizeof c_double = 8"
| "sizeof at_BFloat16 = 2"
| "sizeof tf_bfloat16 = 2"

definition static_cast :: "(CType \<Rightarrow> CType \<Rightarrow> 'e \<Rightarrow> 'e) \<Rightarrow> CType \<Rightarrow> CType \<Rightarrow> 'e \<Rightarrow> 'e" where
  "static_cast conv S D v = (if S = D then v else conv S D v)"

text \<open>
  \<^verbatim>\<open>NeedCast\<close> and the casters: \<^verbatim>\<open>Caster<S>::cast<D>\<close> is \<^verbatim>\<open>static_cast<D>\<close>, taken
  through \<^verbatim>\<open>float\<close> when \<open>S\<close> is one of the two bfloat16 types.
\<close>

definition NeedCast :: "CType \<Rightarrow> bool" where
  "NeedCast T = (T = tf_bfloat16 \<or> T = at_BFloat16)"

definition Caster_cast :: "(CType \<Rightarrow> CType \<Rightarrow> 'e \<Rightarrow> 'e) \<Rightarrow> CType \<Rightarrow> CType \<Rightarrow> 'e \<Rightarrow> 'e" where
  "Caster_cast conv S D v =
     (if S = at_BFloat16 \<or> S = tf_bfloat16
      then static_cast conv c_float D (static_cast conv S c_float v)
      else static_cast conv S D v)"

text \<open>
  \<^verbatim>\<open>StridedCopy\<close>. The pointers \<^verbatim>\<open>dest\<close> and \<^verbatim>\<open>source\<close> are a buffer and an offset
  into it; the loop runs while the source offset is below \<open>source_top\<close>. A read or a write
  outside its buffer stops with \<open>OutOfRange\<close>.
\<close>

partial_function (option) StridedCopy_loop ::
  "('e \<Rightarrow> 'e) \<Rightarrow> 'e list \<Rightarrow> nat \<Rightarrow> nat \<Rightarrow> 'e list \<Rightarrow> nat \<Rightarrow> nat \<Rightarrow> nat \<Rightarrow> (error + 'e list) option" where
  "StridedCopy_loop cast dest d dest_stride source s source_stride source_top =
     (if s < source_top then
        (if s < length source \<and> d < length dest
         then StridedCopy_loop cast (dest[d := cast (source ! s)]) (d + dest_stride) dest_stride
                source (s + source_stride) source_stride source_top
         else Some (Inl OutOfRange))
      else Some (Inr dest))"

declare StridedCopy_loop.simps [code]

definition StridedCopy ::
  "(CType \<Rightarrow> CType \<Rightarrow> 'e \<Rightarrow> 'e) \<Rightarrow> CType \<Rightarrow> CType \<Rightarrow> 'e list \<Rightarrow> nat \<Rightarrow> nat \<Rightarrow> 'e list \<Rightarrow> nat \<Rightarrow> nat \<Rightarrow> nat
     \<Rightarrow> (error + 'e list) option" where
  "StridedCopy conv S D dest d dest_stride source s source_stride n =
     StridedCopy_loop (Caster_cast conv S D) dest d dest_stride source s source_stride
       (s + n * source_stride)"

definition GetFlatTensorOffset :: "nat list \<Rightarrow> nat list \<Rightarrow> error + nat" where
  "GetFlatTensorOffset strides indices =
     (if length indices \<le> length strides
      then Inr (fold (\<lambda>i base. base + indices ! i * strides ! i) [0..<length indices] 0)
      else Inl OutOfRange)"

text \<open>
  \<^verbatim>\<open>CopyData\<close> with its two tags and two specialisations: \<^verbatim>\<open>std::copy\<close> converts each of
  the \<open>n\<close> elements implicitly, \<^verbatim>\<open>CheckedMemcpy\<close> transfers them unchanged.
\<close>

definition CheckedMemcpy :: "'e list \<Rightarrow> 'e list \<Rightarrow> nat \<Rightarrow> error + 'e list" where
  "CheckedMemcpy dest source n =
     (if n \<le> length source \<and> n \<le> length dest then Inr (take n source @ drop n dest)
      else Inl OutOfRange)"

definition std_copy ::
  "(CType \<Rightarrow> CType \<Rightarrow> 'e \<Rightarrow> 'e) \<Rightarrow> CType \<Rightarrow> CType \<Rightarrow> 'e list \<Rightarrow> 'e list \<Rightarrow> nat \<Rightarrow> error + 'e list" where
  "std_copy conv S D dest source n =
     (if n \<le> length source \<and> n \<le> length dest
      then Inr (map (static_cast conv S D) (take n source) @ drop n dest)
      else Inl OutOfRange)"

definition CopyData ::
  "(CType \<Rightarrow> CType \<Rightarrow> 'e \<Rightarrow> 'e) \<Rightarrow> CType \<Rightarrow> CType \<Rightarrow> 'e list \<Rightarrow> 'e list \<Rightarrow> nat
     \<Rightarrow> (error + 'e list) option" where
  "CopyData conv D S dest source n =
     (if NeedCast S \<or> NeedCast D then
        (if (D = at_BFloat16 \<and> S = tf_bfloat16) \<or> (D = tf_bfloat16 \<and> S = at_BFloat16)
         then Some (CheckedMemcpy dest source n)
         else StridedCopy conv S D dest 0 1 source 0 1 n)
      else Some (std_copy conv S D dest source n))"

text \<open>
  \<^verbatim>\<open>SlicedCopy\<close>. \<open>advance\<close> is the inner \<^verbatim>\<open>for\<close> loop that increments the index vector
  in iteration order from position \<open>n\<close>, carrying at \<open>limit\<close>; it returns the new indices
  and the value of \<open>n\<close> at which it stopped. \<open>SlicedCopy_loop\<close> is the \<^verbatim>\<open>while\<close> loop.
\<close>

function advance :: "nat list \<Rightarrow> CopyPartition \<Rightarrow> nat list \<Rightarrow> nat \<Rightarrow> error + nat list \<times> nat" where
  "advance iter_dims part indices n =
     (if n < length indices then
        (if n < length iter_dims \<and> iter_dims ! n < length indices
              \<and> iter_dims ! n < length (limit part) then
           (let dim = iter_dims ! n;
                indices' = indices[dim := indices ! dim + 1]
            in if indices' ! dim < limit part ! dim then Inr (indices', n)
               else if dim < length (base part)
                    then advance iter_dims part (indices'[dim := base part ! dim]) (n + 1)
                    else Inl OutOfRange)
         else Inl OutOfRange)
      else Inr (indices, n))"
  by pat_completeness auto
termination
  by (relation "measure (\<lambda>(iter_dims, part, indices, n). length indices - n)") auto

declare advance.simps [simp del]

partial_function (option) SlicedCopy_loop ::
  "(CType \<Rightarrow> CType \<Rightarrow> 'e \<Rightarrow> 'e) \<Rightarrow> CType \<Rightarrow> CType \<Rightarrow> nat list \<Rightarrow> 'e list \<Rightarrow> nat list \<Rightarrow> nat list
     \<Rightarrow> nat list \<Rightarrow> CopyPartition \<Rightarrow> nat \<Rightarrow> nat \<Rightarrow> nat list \<Rightarrow> 'e list \<Rightarrow> (error + 'e list) option" where
  "SlicedCopy_loop conv S D dims src_data src_strides dest_strides iter_dims part
       inner_src_stride inner_dest_stride indices dest_data =
     (case GetFlatTensorOffset dest_strides indices of
        Inl e \<Rightarrow> Some (Inl e)
      | Inr dest_offset \<Rightarrow>
     (case GetFlatTensorOffset src_strides indices of
        Inl e \<Rightarrow> Some (Inl e)
      | Inr src_offset \<Rightarrow>
     (if hd iter_dims < length dims then
     (case StridedCopy conv S D dest_data dest_offset inner_dest_stride
             src_data src_offset inner_src_stride (dims ! hd iter_dims) of
        None \<Rightarrow> None
      | Some (Inl e) \<Rightarrow> Some (Inl e)
      | Some (Inr dest_data') \<Rightarrow>
     (case advance iter_dims part indices 1 of
        Inl e \<Rightarrow> Some (Inl e)
      | Inr (indices', n) \<Rightarrow>
          if n < length indices'
          then SlicedCopy_loop conv S D dims src_data src_strides dest_strides iter_dims part
                 inner_src_stride inner_dest_stride indices' dest_data'
          else Some (Inr dest_data')))
      else Some (Inl OutOfRange))))"

declare SlicedCopy_loop.simps [code]

definition SlicedCopy ::
  "(CType \<Rightarrow> CType \<Rightarrow> 'e \<Rightarrow> 'e) \<Rightarrow> CType \<Rightarrow> CType \<Rightarrow> nat list \<Rightarrow> 'e list \<Rightarrow> nat list \<Rightarrow> 'e list
     \<Rightarrow> nat list \<Rightarrow> nat list \<Rightarrow> CopyPartition \<Rightarrow> (error + 'e list) option" where
  "SlicedCopy conv S D dims src_data src_strides dest_data dest_strides iter_dims part =
     (let indices = base part in
      if iter_dims \<noteq> [] \<and> hd iter_dims < length src_strides \<and> hd iter_dims < length dest_strides
      then
        (let inner_src_stride = src_strides ! hd iter_dims;
             inner_dest_stride = dest_strides ! hd iter_dims
         in if 0 < length indices
            then SlicedCopy_loop conv S D dims src_data src_strides dest_strides iter_dims part
                   inner_src_stride inner_dest_stride indices dest_data
            else Some (Inr dest_data))
      else Some (Inl OutOfRange))"

text \<open>
  \<^verbatim>\<open>CopyTensors\<close>. The closures handed to the thread pool are run one after the other in
  the order of the partition list (\<open>run_parts\<close>); \<^verbatim>\<open>mwait.Wait()\<close> returns when all have
  run. Lemma \<open>partitions_order_irrelevant\<close> below shows that for a destination layout that
  is a permutation and fewer than \<open>2\<^sup>6\<^sup>3\<close> elements any other order gives the same
  result. \<^verbatim>\<open>SameDimensions\<close> and \<^verbatim>\<open>ElementsIn\<close> are those of \<^verbatim>\<open>xla::ShapeUtil\<close>: equal
  dimension lists, and the product of the dimension sizes. The copy engine moves through the buffers by offsets counted in
  elements, which are natural numbers; it reads each stride of \<^verbatim>\<open>ComputeShapeStrides\<close>
  as the number \<open>unat\<close> of its 64 bits, which is the \<^verbatim>\<open>xla::int64\<close> value of the stride
  unless the running product has passed \<open>2\<^sup>6\<^sup>3\<close>.
\<close>

definition SameDimensions :: "Shape \<Rightarrow> Shape \<Rightarrow> bool" where
  "SameDimensions lhs rhs = (dimensions lhs = dimensions rhs)"

definition ElementsIn :: "Shape \<Rightarrow> nat" where
  "ElementsIn s = prod_list (dimensions s)"

fun run_parts ::
  "(CopyPartition \<Rightarrow> 'e list \<Rightarrow> (error + 'e list) option) \<Rightarrow> CopyPartition list \<Rightarrow> 'e list
     \<Rightarrow> (error + 'e list) option" where
  "run_parts copy_fn [] dest_data = Some (Inr dest_data)"
| "run_parts copy_fn (p # parts) dest_data =
     (case copy_fn p dest_data of
        None \<Rightarrow> None
      | Some (Inl e) \<Rightarrow> Some (Inl e)
      | Some (Inr dest_data') \<Rightarrow> run_parts copy_fn parts dest_data')"

definition CopyTensors ::
  "(CType \<Rightarrow> CType \<Rightarrow> 'e \<Rightarrow> 'e) \<Rightarrow> nat \<Rightarrow> CType \<Rightarrow> CType \<Rightarrow> 'e list \<Rightarrow> Shape \<Rightarrow> 'e list \<Rightarrow> nat \<Rightarrow> Shape
     \<Rightarrow> (error + 'e list) option" where
  "CopyTensors conv hardware_concurrency S D src_buffer src_shape dest_buffer dest_buffer_size
       dest_shape =
     (if \<not> SameDimensions src_shape dest_shape then Some (Inl ShapeMismatch)
      else
        (let total_elements = ElementsIn src_shape in
         if dest_buffer_size \<noteq> total_elements * sizeof D then Some (Inl BufferSizeMismatch)
         else if minor_to_major src_shape = minor_to_major dest_shape
         then CopyData conv D S dest_buffer src_buffer total_elements
         else if 0 < total_elements then
           (case ComputeShapeStrides src_shape of
              Inl e \<Rightarrow> Some (Inl e)
            | Inr src_strides \<Rightarrow>
           (case ComputeShapeStrides dest_shape of
              Inl e \<Rightarrow> Some (Inl e)
            | Inr dest_strides \<Rightarrow>
           (case GetIterationDimensions dest_shape of
              Inl e \<Rightarrow> Some (Inl e)
            | Inr iter_dims \<Rightarrow>
           (case CreateCopyPartitions hardware_concurrency (dimensions dest_shape)
                   (hd iter_dims) of
              None \<Rightarrow> None
            | Some (Inl e) \<Rightarrow> Some (Inl e)
            | Some (Inr parts) \<Rightarrow>
                run_parts
                  (\<lambda>part dest_data.
                      SlicedCopy conv S D (dimensions dest_shape) src_buffer
                        (map unat src_strides) dest_data (map unat dest_strides) iter_dims part)
                  parts dest_buffer))))
         else Some (Inr dest_buffer)))"


subsection \<open>Tensors and literals\<close>

text \<open>
  Modelled from the spec: a host tensor (\<^verbatim>\<open>at::Tensor\<close>, whose class is not among the
  sources) is a dimension list, a scalar type tag and a contiguous row-major element
  buffer; a literal is a shape and a buffer. \<^verbatim>\<open>MakeSwiftTensorLayout\<close> (layout\_manager.cpp)
  builds the host's row-major shape, and a buffer that C++ allocates without initialising
  holds the values \<open>fresh 0, fresh 1, \<dots>\<close>.
\<close>

record 'e Tensor =
  tensor_shape :: "nat list"
  scalar_type :: ScalarType
  buffer :: "'e list"

record 'e Literal =
  literal_shape :: Shape
  literal_data :: "'e list"

definition MakeSwiftTensorLayout :: "nat list \<Rightarrow> PrimitiveType \<Rightarrow> Shape" where
  "MakeSwiftTensorLayout dims type = MkShape type dims (rev [0..<length dims]) []"

text \<open>
  \<^verbatim>\<open>literal.size_bytes()\<close> is the number of elements times the byte size of the element
  type, as \<^verbatim>\<open>xla::ShapeUtil\<close> has it for the array types.
\<close>

fun ByteSizeOfPrimitiveType :: "PrimitiveType \<Rightarrow> nat" where
  "ByteSizeOfPrimitiveType PRED = 1"
| "ByteSizeOfPrimitiveType S8 = 1"
| "ByteSizeOfPrimitiveType U8 = 1"
| "ByteSizeOfPrimitiveType S16 = 2"
| "ByteSizeOfPrimitiveType U16 = 2"
| "ByteSizeOfPrimitiveType F16 = 2"
| "ByteSizeOfPrimitiveType BF16 = 2"
| "ByteSizeOfPrimitiveType S32 = 4"
| "ByteSizeOfPrimitiveType U32 = 4"
| "ByteSizeOfPrimitiveType F32 = 4"
| "ByteSizeOfPrimitiveType S64 = 8"
| "ByteSizeOfPrimitiveType U64 = 8"
| "ByteSizeOfPrimitiveType F64 = 8"
| "ByteSizeOfPrimitiveType C64 = 8"
| "ByteSizeOfPrimitiveType C128 = 16"
| "ByteSizeOfPrimitiveType _ = 0"

definition TensorToBuffer ::
  "(CType \<Rightarrow> CType \<Rightarrow> 'e \<Rightarrow> 'e) \<Rightarrow> nat \<Rightarrow> CType \<Rightarrow> CType \<Rightarrow> 'e Tensor \<Rightarrow> Shape \<Rightarrow> 'e list \<Rightarrow> nat
     \<Rightarrow> Device \<Rightarrow> (error + 'e list) option" where
  "TensorToBuffer conv hc S D tensor dest_shape dest_buffer dest_buffer_size device =
     (case XlaTypeFromTensorType (scalar_type tensor) device of
        Inl e \<Rightarrow> Some (Inl e)
      | Inr type \<Rightarrow>
          CopyTensors conv hc S D (buffer tensor)
            (MakeSwiftTensorLayout (tensor_shape tensor) type)
            dest_buffer dest_buffer_size dest_shape)"

definition TensorToBufferSType ::
  "(CType \<Rightarrow> CType \<Rightarrow> 'e \<Rightarrow> 'e) \<Rightarrow> nat \<Rightarrow> CType \<Rightarrow> 'e Tensor \<Rightarrow> Shape \<Rightarrow> 'e list \<Rightarrow> nat
     \<Rightarrow> Device \<Rightarrow> (error + 'e list) option" where
  "TensorToBufferSType conv hc S tensor dest_shape dest_buffer dest_buffer_size device =
     (case element_type dest_shape of
        BF16 \<Rightarrow> TensorToBuffer conv hc S tf_bfloat16 tensor dest_shape dest_buffer dest_buffer_size device
      | F32 \<Rightarrow> TensorToBuffer conv hc S c_float tensor dest_shape dest_buffer dest_buffer_size device
      | F64 \<Rightarrow> TensorToBuffer conv hc S c_double tensor dest_shape dest_buffer dest_buffer_size device
      | PRED \<Rightarrow> TensorToBuffer conv hc S c_bool tensor dest_shape dest_buffer dest_buffer_size device
      | U8 \<Rightarrow> TensorToBuffer conv hc S c_uint8 tensor dest_shape dest_buffer dest_buffer_size device
      | S8 \<Rightarrow> TensorToBuffer conv hc S c_int8 tensor dest_shape dest_buffer dest_buffer_size device
      | S16 \<Rightarrow> TensorToBuffer conv hc S c_int16 tensor dest_shape dest_buffer dest_buffer_size device
      | U16 \<Rightarrow> TensorToBuffer conv hc S c_uint16 tensor dest_shape dest_buffer dest_buffer_size device
      | S32 \<Rightarrow> TensorToBuffer conv hc S c_int32 tensor dest_shape dest_buffer dest_buffer_size device
      | U32 \<Rightarrow> TensorToBuffer conv hc S c_uint32 tensor dest_shape dest_buffer dest_buffer_size device
      | S64 \<Rightarrow> TensorToBuffer conv hc S c_int64 tensor dest_shape dest_buffer dest_buffer_size device
      | U64 \<Rightarrow> TensorToBuffer conv hc S c_uint64 tensor dest_shape dest_buffer dest_buffer_size device
      | _ \<Rightarrow> Some (Inl ShapeUnsupported))"

definition PopulateTensorBuffer ::
  "(CType \<Rightarrow> CType \<Rightarrow> 'e \<Rightarrow> 'e) \<Rightarrow> nat \<Rightarrow> 'e Tensor \<Rightarrow> Shape \<Rightarrow> 'e list \<Rightarrow> nat \<Rightarrow> Device
     \<Rightarrow> (error + 'e list) option" where
  "PopulateTensorBuffer conv hc tensor dest_shape dest_buffer dest_buffer_size device =
     (case scalar_type tensor of
        Double \<Rightarrow> TensorToBufferSType conv hc c_double tensor dest_shape dest_buffer dest_buffer_size device
      | Float \<Rightarrow> TensorToBufferSType conv hc c_float tensor dest_shape dest_buffer dest_buffer_size device
      | BFloat16 \<Rightarrow> TensorToBufferSType conv hc at_BFloat16 tensor dest_shape dest_buffer dest_buffer_size device
      | Bool \<Rightarrow> TensorToBufferSType conv hc c_bool tensor dest_shape dest_buffer dest_buffer_size device
      | Byte \<Rightarrow> TensorToBufferSType conv hc c_uint8 tensor dest_shape dest_buffer dest_buffer_size device
      | Char_t \<Rightarrow> TensorToBufferSType conv hc c_int8 tensor dest_shape dest_buffer dest_buffer_size device
      | Short \<Rightarrow> TensorToBufferSType conv hc c_int16 tensor dest_shape dest_buffer dest_buffer_size device
      | Int_t \<Rightarrow> TensorToBufferSType conv hc c_int32 tensor dest_shape dest_buffer dest_buffer_size device
      | Long \<Rightarrow> TensorToBufferSType conv hc c_int64 tensor dest_shape dest_buffer dest_buffer_size device
      | Half \<Rightarrow> Some (Inl TypeUnsupported))"

definition XlaLiteralToTensor ::
  "(CType \<Rightarrow> CType \<Rightarrow> 'e \<Rightarrow> 'e) \<Rightarrow> nat \<Rightarrow> (nat \<Rightarrow> 'e) \<Rightarrow> CType \<Rightarrow> CType \<Rightarrow> 'e Literal \<Rightarrow> ScalarType
     \<Rightarrow> (error + 'e Tensor) option" where
  "XlaLiteralToTensor conv hc fresh S D literal atype =
     (let dims = dimensions (literal_shape literal);
          swift_shape = MakeSwiftTensorLayout dims (element_type (literal_shape literal));
          total_elements = ElementsIn swift_shape;
          data = map fresh [0..<total_elements]
      in case CopyTensors conv hc S D (literal_data literal) (literal_shape literal) data
                (total_elements * sizeof D) swift_shape of
           None \<Rightarrow> None
         | Some (Inl e) \<Rightarrow> Some (Inl e)
         | Some (Inr data') \<Rightarrow>
             Some (Inr \<lparr>tensor_shape = dims, scalar_type = atype, buffer = data'\<rparr>))"

definition XlaLiteralToTensorHelper ::
  "(CType \<Rightarrow> CType \<Rightarrow> 'e \<Rightarrow> 'e) \<Rightarrow> nat \<Rightarrow> (nat \<Rightarrow> 'e) \<Rightarrow> CType \<Rightarrow> 'e Literal \<Rightarrow> ScalarType
     \<Rightarrow> (error + 'e Tensor) option" where
  "XlaLiteralToTensorHelper conv hc fresh S literal dest_element_type =
     (case dest_element_type of
        Bool \<Rightarrow> XlaLiteralToTensor conv hc fresh S c_bool literal dest_element_type
      | Byte \<Rightarrow> XlaLiteralToTensor conv hc fresh S c_uint8 literal dest_element_type
      | Char_t \<Rightarrow> XlaLiteralToTensor conv hc fresh S c_int8 literal dest_element_type
      | Short \<Rightarrow> XlaLiteralToTensor conv hc fresh S c_int16 literal dest_element_type
      | Int_t \<Rightarrow> XlaLiteralToTensor conv hc fresh S c_int32 literal dest_element_type
      | Long \<Rightarrow> XlaLiteralToTensor conv hc fresh S c_int64 literal dest_element_type
      | Float \<Rightarrow> XlaLiteralToTensor conv hc fresh S c_float literal dest_element_type
      | Double \<Rightarrow> XlaLiteralToTensor conv hc fresh S c_double literal dest_element_type
      | BFloat16 \<Rightarrow> XlaLiteralToTensor conv hc fresh S at_BFloat16 literal dest_element_type
      | Half \<Rightarrow> Some (Inl TypeUnsupported))"

definition MakeTensorFromXlaLiteral ::
  "(CType \<Rightarrow> CType \<Rightarrow> 'e \<Rightarrow> 'e) \<Rightarrow> nat \<Rightarrow> (nat \<Rightarrow> 'e) \<Rightarrow> 'e Literal \<Rightarrow> ScalarType
     \<Rightarrow> (error + 'e Tensor) option" where
  "MakeTensorFromXlaLiteral conv hc fresh literal dest_element_type =
     (case element_type (literal_shape literal) of
        PRED \<Rightarrow> XlaLiteralToTensorHelper conv hc fresh c_bool literal dest_element_type
      | BF16 \<Rightarrow> XlaLiteralToTensorHelper conv hc fresh tf_bfloat16 literal dest_element_type
      | F32 \<Rightarrow> XlaLiteralToTensorHelper conv hc fresh c_float literal dest_element_type
      | F64 \<Rightarrow> XlaLiteralToTensorHelper conv hc fresh c_double literal dest_element_type
      | U8 \<Rightarrow> XlaLiteralToTensorHelper conv hc fresh c_uint8 literal dest_element_type
      | S8 \<Rightarrow> XlaLiteralToTensorHelper conv hc fresh c_int8 literal dest_element_type
      | S16 \<Rightarrow> XlaLiteralToTensorHelper conv hc fresh c_int16 literal dest_element_type
      | U16 \<Rightarrow> XlaLiteralToTensorHelper conv hc fresh c_uint16 literal dest_element_type
      | S32 \<Rightarrow> XlaLiteralToTensorHelper conv hc fresh c_int32 literal dest_element_type
      | U32 \<Rightarrow> XlaLiteralToTensorHelper conv hc fresh c_uint32 literal dest_element_type
      | S64 \<Rightarrow> XlaLiteralToTensorHelper conv hc fresh c_int64 literal dest_element_type
      | U64 \<Rightarrow> XlaLiteralToTensorHelper conv hc fresh c_uint64 literal dest_element_type
      | _ \<Rightarrow> Some (Inl ShapeUnsupported))"

definition GetTensorLiteral ::
  "(CType \<Rightarrow> CType \<Rightarrow> 'e \<Rightarrow> 'e) \<Rightarrow> nat \<Rightarrow> (nat \<Rightarrow> 'e) \<Rightarrow> Device \<Rightarrow> 'e Tensor \<Rightarrow> Shape option
     \<Rightarrow> Device option \<Rightarrow> (error + 'e Literal) option" where
  "GetTensorLiteral conv hc fresh cur tensor shape device =
     (let xla_device = GetDeviceOrCurrent cur device in
      case (case shape of
              None \<Rightarrow>
                (case XlaTypeFromTensorType (scalar_type tensor) xla_device of
                   Inl e \<Rightarrow> Inl e
                 | Inr type \<Rightarrow> Inr (MakeSwiftTensorLayout (tensor_shape tensor) type))
            | Some s \<Rightarrow> Inr s) of
        Inl e \<Rightarrow> Some (Inl e)
      | Inr shape' \<Rightarrow>
          (let untyped_data = map fresh [0..<ElementsIn shape'];
               size_bytes = ElementsIn shape' * ByteSizeOfPrimitiveType (element_type shape')
           in case PopulateTensorBuffer conv hc tensor shape' untyped_data size_bytes xla_device of
                None \<Rightarrow> None
              | Some (Inl e) \<Rightarrow> Some (Inl e)
              | Some (Inr data') \<Rightarrow>
                  Some (Inr \<lparr>literal_shape = shape', literal_data = data'\<rparr>)))"

text \<open>
  \<^verbatim>\<open>TensorHash\<close>. Modelled from the spec: \<^verbatim>\<open>GetSizeof\<close> is the size in bytes of a scalar
  kind, and \<^verbatim>\<open>DataHash(data, size)\<close> is a fixed function of the \<open>size\<close> bytes at \<open>data\<close>.
  The memory at the tensor's data pointer holds the object representation
  \<open>object_bytes e\<close> of each element in turn, followed by the bytes \<open>beyond\<close> the buffer.
\<close>

fun GetSizeof :: "ScalarType \<Rightarrow> nat" where
  "GetSizeof Bool = 1"
| "GetSizeof Byte = 1"
| "GetSizeof Char_t = 1"
| "GetSizeof Short = 2"
| "GetSizeof Int_t = 4"
| "GetSizeof Long = 8"
| "GetSizeof Half = 2"
| "GetSizeof Float = 4"
| "GetSizeof Double = 8"
| "GetSizeof BFloat16 = 2"

definition TensorHash ::
  "('b list \<Rightarrow> 'h) \<Rightarrow> ('e \<Rightarrow> 'b list) \<Rightarrow> 'b list \<Rightarrow> 'e Tensor \<Rightarrow> error + 'h" where
  "TensorHash DataHash object_bytes beyond tensor =
     (let size = length (buffer tensor) * GetSizeof (scalar_type tensor);
          data = concat (map object_bytes (buffer tensor)) @ beyond
      in case scalar_type tensor of
           Bool \<Rightarrow> Inr (DataHash (take size data))
         | Byte \<Rightarrow> Inr (DataHash (take size data))
         | Char_t \<Rightarrow> Inr (DataHash (take size data))
         | Short \<Rightarrow> Inr (DataHash (take size data))
         | Int_t \<Rightarrow> Inr (DataHash (take size data))
         | Long \<Rightarrow> Inr (DataHash (take size data))
         | Float \<Rightarrow> Inr (DataHash (take size data))
         | Double \<Rightarrow> Inr (DataHash (take size data))
         | BFloat16 \<Rightarrow> Inr (DataHash (take size data))
         | Half \<Rightarrow> Inl TypeUnsupported)"


subsection \<open>Notions used in the proofs about the copy engine\<close>

text \<open>
  The strided copy is analysed through the list of accesses it performs, pairs of a source
  offset and a destination offset: \<open>exec_accesses\<close> performs such a list in order with the
  bounds checks of the model, \<open>row_accesses\<close> is the list of one \<open>StridedCopy\<close> call, and
  \<open>store\<close> is the destination after a list of accesses that are all in range.

  The index vector of \<open>SlicedCopy\<close> is an odometer over the digits \<open>es\<close> (the iteration
  dimensions after the inner one) with the ranges \<open>[b ! e, l ! e)\<close>: \<open>adv\<close> is one
  increment with carry (the flag says that every digit wrapped), \<open>pos\<close> the mixed-radix
  value of an index vector, \<open>cnt\<close> the number of index vectors, \<open>visit\<close> the vectors that
  \<open>k\<close> passes of the loop go through. \<open>flat\<close> is the offset that \<open>GetFlatTensorOffset\<close>
  computes, \<open>part_box\<close> the index vectors that one partition copies and \<open>copy_set\<close> the
  accesses of the whole copy.
\<close>

fun exec_accesses :: "('e \<Rightarrow> 'e) \<Rightarrow> 'e list \<Rightarrow> (nat \<times> nat) list \<Rightarrow> 'e list \<Rightarrow> error + 'e list" where
  "exec_accesses cast source [] dest = Inr dest"
| "exec_accesses cast source ((s, d) # as) dest =
     (if s < length source \<and> d < length dest
      then exec_accesses cast source as (dest[d := cast (source ! s)])
      else Inl OutOfRange)"

definition row_accesses :: "nat \<Rightarrow> nat \<Rightarrow> nat \<Rightarrow> nat \<Rightarrow> nat \<Rightarrow> (nat \<times> nat) list" where
  "row_accesses s source_stride d dest_stride n =
     map (\<lambda>k. (s + k * source_stride, d + k * dest_stride))
       [0..<(if source_stride = 0 then 0 else n)]"

definition in_range :: "'e list \<Rightarrow> 'e list \<Rightarrow> (nat \<times> nat) set \<Rightarrow> bool" where
  "in_range source dest W = (\<forall>(s, d) \<in> W. s < length source \<and> d < length dest)"

definition store :: "('e \<Rightarrow> 'e) \<Rightarrow> 'e list \<Rightarrow> (nat \<times> nat) list \<Rightarrow> 'e list \<Rightarrow> 'e list" where
  "store cast source as dest = fold (\<lambda>(s, d) m. m[d := cast (source ! s)]) as dest"

fun adv :: "nat list \<Rightarrow> nat list \<Rightarrow> nat list \<Rightarrow> nat list \<Rightarrow> nat list \<times> bool" where
  "adv b l [] idx = (idx, True)"
| "adv b l (e # es) idx =
     (if idx ! e + 1 < l ! e then (idx[e := idx ! e + 1], False)
      else adv b l es (idx[e := b ! e]))"

fun pos :: "nat list \<Rightarrow> nat list \<Rightarrow> nat list \<Rightarrow> nat list \<Rightarrow> nat" where
  "pos b l [] idx = 0"
| "pos b l (e # es) idx = (idx ! e - b ! e) + (l ! e - b ! e) * pos b l es idx"

fun cnt :: "nat list \<Rightarrow> nat list \<Rightarrow> nat list \<Rightarrow> nat" where
  "cnt b l [] = 1"
| "cnt b l (e # es) = (l ! e - b ! e) * cnt b l es"

definition inbox :: "nat list \<Rightarrow> nat list \<Rightarrow> nat list \<Rightarrow> nat list \<Rightarrow> bool" where
  "inbox b l es idx = (\<forall>e \<in> set es. b ! e \<le> idx ! e \<and> idx ! e < l ! e)"

definition flat :: "nat list \<Rightarrow> nat list \<Rightarrow> nat" where
  "flat strides indices = fold (\<lambda>i base. base + indices ! i * strides ! i) [0..<length indices] 0"

fun visit :: "nat list \<Rightarrow> nat list \<Rightarrow> nat list \<Rightarrow> nat \<Rightarrow> nat list \<Rightarrow> nat list list" where
  "visit b l es 0 idx = []"
| "visit b l es (Suc k) idx = idx # visit b l es k (fst (adv b l es idx))"

definition rows ::
  "nat list \<Rightarrow> nat list \<Rightarrow> nat \<Rightarrow> nat \<Rightarrow> nat \<Rightarrow> nat list list \<Rightarrow> (nat \<times> nat) list" where
  "rows src_strides dest_strides inner_src_stride inner_dest_stride n vs =
     concat (map (\<lambda>v. row_accesses (flat src_strides v) inner_src_stride
                         (flat dest_strides v) inner_dest_stride n) vs)"

definition part_box :: "nat list \<Rightarrow> nat list \<Rightarrow> nat list \<Rightarrow> nat \<Rightarrow> nat \<Rightarrow> nat list set" where
  "part_box b l es inner n =
     {J. length J = length b \<and> inbox b l es J \<and> J ! inner < n}"

definition copy_set :: "nat list \<Rightarrow> nat list \<Rightarrow> nat list \<Rightarrow> nat list \<Rightarrow> nat \<Rightarrow> (nat \<times> nat) set" where
  "copy_set dims ss ds es inner =
     (\<lambda>J. (flat ss J, flat ds J)) `
       {J. length J = length dims \<and> (\<forall>e \<in> set es. J ! e < dims ! e)
           \<and> J ! inner < (if ss ! inner = 0 then 0 else dims ! inner)}"

section \<open>Properties\<close>

subsection \<open>Type mapper\<close>

lemma MakeXlaPrimitiveType_raw:
  "TensorTypeToRawXlaType k = Inr p \<Longrightarrow>
   MakeXlaPrimitiveType cfg cur k device = Inr (GetDevicePrimitiveType cfg cur p device)"
  by (cases k) auto

text \<open>
  C1, as stated, fails: with BF16 mode enabled the table of section 4.1 applies the TPU
  rules only in its "else" branch, so it leaves a Byte tensor on a TPU at U8, while
  \<open>MakeXlaPrimitiveType\<close> widens it to U32 whatever the BF16 mode.
\<close>

theorem C1_promotion_table_counterexample:
  "MakeXlaPrimitiveType \<lparr>UseBF16 = True, Use32BitLong = False\<rparr> \<lparr>hw_type = CPU, ordinal = 0\<rparr>
     Byte (Some \<lparr>hw_type = TPU, ordinal = 0\<rparr>) = Inr U32
   \<and> TensorTypeToRawXlaType Byte = Inr U8
   \<and> spec_promotion_table \<lparr>UseBF16 = True, Use32BitLong = False\<rparr> TPU U8 = U8"
  by (simp add: spec_promotion_table_def GetDeviceOrCurrent_def)

text \<open>
  C1, amended: for every supported scalar kind, device and setting of the two toggles,
  \<open>MakeXlaPrimitiveType\<close> returns: for Double, BF16 in BF16 mode, else F32 on a TPU, else
  F64; for Float, BF16 in BF16 mode, else F32; for Byte, Char and Short, on a TPU (in
  either BF16 mode) U32, S32 and S32, else U8, S8 and S16; for Long, S32 in 32-bit-long
  mode, else S64; for BFloat16, Bool and Int the raw BF16, PRED and S32.
\<close>

theorem C1_promotion_table:
  "MakeXlaPrimitiveType cfg cur Double device =
     Inr (if UseBF16 cfg then BF16
          else if hw_type (GetDeviceOrCurrent cur device) = TPU then F32 else F64)
   \<and> MakeXlaPrimitiveType cfg cur Float device = Inr (if UseBF16 cfg then BF16 else F32)
   \<and> MakeXlaPrimitiveType cfg cur BFloat16 device = Inr BF16
   \<and> MakeXlaPrimitiveType cfg cur Bool device = Inr PRED
   \<and> MakeXlaPrimitiveType cfg cur Byte device =
       Inr (if hw_type (GetDeviceOrCurrent cur device) = TPU then U32 else U8)
   \<and> MakeXlaPrimitiveType cfg cur Char_t device =
       Inr (if hw_type (GetDeviceOrCurrent cur device) = TPU then S32 else S8)
   \<and> MakeXlaPrimitiveType cfg cur Short device =
       Inr (if hw_type (GetDeviceOrCurrent cur device) = TPU then S32 else S16)
   \<and> MakeXlaPrimitiveType cfg cur Int_t device = Inr S32
   \<and> MakeXlaPrimitiveType cfg cur Long device = Inr (if Use32BitLong cfg then S32 else S64)"
  by simp

text \<open>
  C6: \<open>TensorTypeFromXlaType\<close> maps BF16 to BFloat16 when BF16 mode is off and to Float
  when it is on; S16 and U16 go to Short, S32 and U32 to Int, S64 and U64 to Long.
\<close>

theorem C6_tensor_type_from_xla:
  "TensorTypeFromXlaType cfg BF16 = Inr (if UseBF16 cfg then Float else BFloat16)
   \<and> TensorTypeFromXlaType cfg S16 = Inr Short \<and> TensorTypeFromXlaType cfg U16 = Inr Short
   \<and> TensorTypeFromXlaType cfg S32 = Inr Int_t \<and> TensorTypeFromXlaType cfg U32 = Inr Int_t
   \<and> TensorTypeFromXlaType cfg S64 = Inr Long \<and> TensorTypeFromXlaType cfg U64 = Inr Long"
  by simp

subsection \<open>Component shapes\<close>

lemma component_loop_no_tuple:
  "\<forall>c \<in> set cs. \<not> IsTuple c \<Longrightarrow> component_loop cs acc = Inr (acc @ cs)"
  by (induction cs arbitrary: acc) auto

lemma component_loop_tuple:
  "\<exists>c \<in> set cs. IsTuple c \<Longrightarrow> component_loop cs acc = Inl ShapeUnsupported"
  by (induction cs arbitrary: acc) auto

text \<open>
  C8: \<open>GetComponentShapes\<close> returns \<open>[shape]\<close> for a shape that is not a tuple, the direct
  components in order for a tuple none of whose components is a tuple, and fails with
  ShapeUnsupported for a tuple that has a tuple among its components.
\<close>

theorem C8_component_shapes:
  "(\<not> IsTuple shape \<longrightarrow> GetComponentShapes shape = Inr [shape])
   \<and> (IsTuple shape \<and> (\<forall>c \<in> set (tuple_shapes shape). \<not> IsTuple c)
        \<longrightarrow> GetComponentShapes shape = Inr (tuple_shapes shape))
   \<and> (IsTuple shape \<and> (\<exists>c \<in> set (tuple_shapes shape). IsTuple c)
        \<longrightarrow> GetComponentShapes shape = Inl ShapeUnsupported)"
  by (simp add: GetComponentShapes_def component_loop_no_tuple component_loop_tuple)

theorem C8_component_shapes_witness:
  "GetComponentShapes (MkShape F32 [2] [0] []) = Inr [MkShape F32 [2] [0] []]
   \<and> GetComponentShapes (MkShape TUPLE [] [] [MkShape F32 [2] [0] [], MkShape S32 [3] [0] []])
       = Inr [MkShape F32 [2] [0] [], MkShape S32 [3] [0] []]
   \<and> GetComponentShapes (MkShape TUPLE [] [] [MkShape TUPLE [] [] [MkShape F32 [2] [0] []]])
       = Inl ShapeUnsupported"
  using C8_component_shapes [of "MkShape F32 [2] [0] []"]
    C8_component_shapes [of "MkShape TUPLE [] [] [MkShape F32 [2] [0] [], MkShape S32 [3] [0] []]"]
    C8_component_shapes [of "MkShape TUPLE [] [] [MkShape TUPLE [] [] [MkShape F32 [2] [0] []]]"]
  by (simp add: IsTuple_def)

subsection \<open>Strides\<close>

lemma strides_loop_closed:
  "distinct m \<Longrightarrow> \<forall>d \<in> set m. d < length strides \<Longrightarrow> length strides = length dims \<Longrightarrow>
   \<exists>r. strides_loop dims m strides stride = Inr r \<and> length r = length strides
       \<and> (\<forall>d. d \<notin> set m \<longrightarrow> r ! d = strides ! d)
       \<and> (\<forall>k < length m. r ! (m ! k) = stride * of_nat (prod_list (map ((!) dims) (take k m))))"
proof (induction m arbitrary: strides stride)
  case Nil
  then show ?case by simp
next
  case (Cons dim rest)
  let ?s = "strides[dim := stride]"
  have d: "dim < length strides" "dim < length dims" "dim \<notin> set rest" "distinct rest"
    using Cons.prems by auto
  have "\<forall>d \<in> set rest. d < length ?s" "length ?s = length dims"
    using Cons.prems by auto
  from Cons.IH [OF d(4) this, of "stride * of_nat (dims ! dim)"]
  obtain r where r: "strides_loop dims rest ?s (stride * of_nat (dims ! dim)) = Inr r"
      "length r = length ?s"
      "\<forall>d. d \<notin> set rest \<longrightarrow> r ! d = ?s ! d"
      "\<forall>k < length rest. r ! (rest ! k) =
          stride * of_nat (dims ! dim) * of_nat (prod_list (map ((!) dims) (take k rest)))"
    by blast
  have "r ! (( dim # rest) ! k) = stride * of_nat (prod_list (map ((!) dims) (take k (dim # rest))))"
    if "k < length (dim # rest)" for k
  proof (cases k)
    case 0
    then show ?thesis using r(3) d by simp
  next
    case (Suc j)
    then show ?thesis using r(4) that by (simp add: mult.assoc)
  qed
  moreover have "\<forall>d. d \<notin> set (dim # rest) \<longrightarrow> r ! d = strides ! d"
    using r(3) by auto
  ultimately show ?case using r(1,2) d by simp
qed

lemma sint_int64_of_nat:
  assumes "n < 2 ^ 63"
  shows "sint (of_nat n :: int64) = int n"
proof -
  have "sint (of_nat n :: int64) = sint (of_int (int n) :: int64)" by simp
  also have "\<dots> = signed_take_bit 63 (int n)" by (simp only: sint_sbintrunc') simp
  also have "\<dots> = int n" using assms by (intro signed_take_bit_int_eq_self) simp_all
  finally show ?thesis .
qed

lemma unat_int64_of_nat: "n < 2 ^ 64 \<Longrightarrow> unat (of_nat n :: int64) = n"
  by (simp add: unat_of_nat)

text \<open>
  C5, as stated, fails where the running product passes \<open>2\<^sup>6\<^sup>3\<close>: for the dimensions
  \<open>[2, 2\<^sup>3\<^sup>2, 2\<^sup>3\<^sup>2]\<close> in the layout \<open>[2, 1, 0]\<close> the \<^verbatim>\<open>xla::int64\<close> product wraps
  around and the stride of dimension \<open>0\<close> is \<open>0\<close>, not \<open>2\<^sup>3\<^sup>2 \<sqdot> 2\<^sup>3\<^sup>2\<close>.
\<close>

theorem C5_shape_strides_counterexample:
  "ComputeShapeStrides (MkShape F32 [2, 4294967296, 4294967296] [2, 1, 0] [])
      = Inr [0, 4294967296, 1]
   \<and> sint ([0, 4294967296, 1 :: int64] ! ([2, 1, 0] ! 2))
       \<noteq> sint ([0, 4294967296, 1 :: int64] ! ([2, 1, 0] ! 1))
           * int ([2, 4294967296, 4294967296] ! ([2, 1, 0] ! 1))"
  by (simp add: ComputeShapeStrides_def rank_def)

text \<open>
  C5: for a shape whose minor-to-major list \<open>[d\<^sub>0, \<dots>, d\<^sub>r\<^sub>-\<^sub>1]\<close> has distinct entries, each
  below the rank, \<open>ComputeShapeStrides\<close> returns one stride per dimension with
  \<open>stride[d\<^sub>0] = 1\<close> and \<open>stride[d\<^sub>k\<^sub>+\<^sub>1] = stride[d\<^sub>k] \<sqdot> dim[d\<^sub>k]\<close> as a product of 64-bit
  words, that is modulo \<open>2\<^sup>6\<^sup>4\<close>; the equation holds between the \<^verbatim>\<open>xla::int64\<close> values
  as integers for every \<open>k\<close> at which the product \<open>dim[d\<^sub>0] \<sqdot> \<dots> \<sqdot> dim[d\<^sub>k]\<close> is below
  \<open>2\<^sup>6\<^sup>3\<close>.
\<close>

theorem C5_shape_strides:
  assumes "distinct (minor_to_major shape)"
    and "\<forall>d \<in> set (minor_to_major shape). d < rank shape"
  shows "\<exists>strides. ComputeShapeStrides shape = Inr strides \<and> length strides = rank shape
     \<and> (minor_to_major shape \<noteq> [] \<longrightarrow> strides ! (minor_to_major shape ! 0) = 1)
     \<and> (\<forall>k. Suc k < length (minor_to_major shape) \<longrightarrow>
            strides ! (minor_to_major shape ! Suc k) =
              strides ! (minor_to_major shape ! k)
                * of_nat (dimensions shape ! (minor_to_major shape ! k)))
     \<and> (\<forall>k. Suc k < length (minor_to_major shape)
            \<and> prod_list (map ((!) (dimensions shape)) (take (Suc k) (minor_to_major shape))) < 2 ^ 63 \<longrightarrow>
            sint (strides ! (minor_to_major shape ! Suc k)) =
              sint (strides ! (minor_to_major shape ! k))
                * int (dimensions shape ! (minor_to_major shape ! k)))"
proof -
  let ?m = "minor_to_major shape" and ?dims = "dimensions shape"
  let ?P = "\<lambda>k. prod_list (map ((!) ?dims) (take k ?m))"
  from strides_loop_closed [of ?m "replicate (rank shape) 0" ?dims 1] assms
  obtain r where r: "strides_loop ?dims ?m (replicate (rank shape) 0) 1 = Inr r"
      "length r = rank shape"
      "\<forall>k < length ?m. r ! (?m ! k) = 1 * of_nat (?P k)"
    by (auto simp: rank_def)
  have P: "?P (Suc k) = ?P k * ?dims ! (?m ! k)" if "Suc k < length ?m" for k
    using that by (simp add: take_Suc_conv_app_nth)
  have w: "r ! (?m ! Suc k) = r ! (?m ! k) * of_nat (?dims ! (?m ! k))" if "Suc k < length ?m" for k
    using r(3) that P [OF that] by simp
  have i: "sint (r ! (?m ! Suc k)) = sint (r ! (?m ! k)) * int (?dims ! (?m ! k))"
    if k: "Suc k < length ?m" and b: "?P (Suc k) < 2 ^ 63" for k
  proof (cases "?dims ! (?m ! k) = 0")
    case True
    then show ?thesis using w [OF k] by simp
  next
    case False
    then have "?P k \<le> ?P k * ?dims ! (?m ! k)" by simp
    also have "\<dots> < 2 ^ 63" using b by (simp only: P [OF k])
    finally have "?P k < 2 ^ 63" .
    then have "sint (r ! (?m ! k)) = int (?P k)"
      using r(3) k by (simp add: sint_int64_of_nat)
    moreover have "sint (r ! (?m ! Suc k)) = int (?P (Suc k))"
      using r(3) k b by (simp only: sint_int64_of_nat mult_1)
    ultimately show ?thesis by (simp only: P [OF k] of_nat_mult)
  qed
  have "?m \<noteq> [] \<longrightarrow> r ! (?m ! 0) = 1" using r(3) by auto
  then show ?thesis using r(1,2) w i by (auto simp: ComputeShapeStrides_def)
qed

theorem C5_shape_strides_witness:
  "(\<exists>strides. ComputeShapeStrides (MkShape F32 [2, 3, 4] [1, 2, 0] []) = Inr strides
     \<and> length strides = 3 \<and> strides ! 1 = 1 \<and> strides ! 2 = strides ! 1 * 3
     \<and> strides ! 0 = strides ! 2 * 4
     \<and> sint (strides ! 2) = sint (strides ! 1) * 3 \<and> sint (strides ! 0) = sint (strides ! 2) * 4)
   \<and> (\<exists>strides. ComputeShapeStrides (MkShape F32 [2, 4294967296, 4294967296] [2, 1, 0] [])
         = Inr strides
     \<and> length strides = 3 \<and> strides ! 2 = 1 \<and> strides ! 1 = strides ! 2 * 4294967296
     \<and> strides ! 0 = strides ! 1 * 4294967296
     \<and> sint (strides ! 1) = sint (strides ! 2) * 4294967296)"
proof -
  let ?s = "MkShape F32 [2, 3, 4] [1, 2, 0] []"
  have "distinct (minor_to_major ?s)" "\<forall>d \<in> set (minor_to_major ?s). d < rank ?s"
    by (simp_all add: rank_def)
  from C5_shape_strides [OF this] obtain strides where
    s: "ComputeShapeStrides ?s = Inr strides" "length strides = rank ?s"
      "minor_to_major ?s \<noteq> [] \<longrightarrow> strides ! (minor_to_major ?s ! 0) = 1"
      "\<forall>k. Suc k < length (minor_to_major ?s) \<longrightarrow>
            strides ! (minor_to_major ?s ! Suc k) =
              strides ! (minor_to_major ?s ! k)
                * of_nat (dimensions ?s ! (minor_to_major ?s ! k))"
      "\<forall>k. Suc k < length (minor_to_major ?s)
            \<and> prod_list (map ((!) (dimensions ?s)) (take (Suc k) (minor_to_major ?s))) < 2 ^ 63 \<longrightarrow>
            sint (strides ! (minor_to_major ?s ! Suc k)) =
              sint (strides ! (minor_to_major ?s ! k))
                * int (dimensions ?s ! (minor_to_major ?s ! k))"
    by blast
  from s(4) [rule_format, of 0] s(4) [rule_format, of 1]
    s(5) [rule_format, of 0] s(5) [rule_format, of 1] s(1,2,3)
  have small: "\<exists>strides. ComputeShapeStrides ?s = Inr strides
     \<and> length strides = 3 \<and> strides ! 1 = 1 \<and> strides ! 2 = strides ! 1 * 3
     \<and> strides ! 0 = strides ! 2 * 4
     \<and> sint (strides ! 2) = sint (strides ! 1) * 3 \<and> sint (strides ! 0) = sint (strides ! 2) * 4"
    by (simp add: rank_def)
  let ?t = "MkShape F32 [2, 4294967296, 4294967296] [2, 1, 0] []"
  have "distinct (minor_to_major ?t)" "\<forall>d \<in> set (minor_to_major ?t). d < rank ?t"
    by (simp_all add: rank_def)
  from C5_shape_strides [OF this] obtain strides where
    t: "ComputeShapeStrides ?t = Inr strides" "length strides = rank ?t"
      "minor_to_major ?t \<noteq> [] \<longrightarrow> strides ! (minor_to_major ?t ! 0) = 1"
      "\<forall>k. Suc k < length (minor_to_major ?t) \<longrightarrow>
            strides ! (minor_to_major ?t ! Suc k) =
              strides ! (minor_to_major ?t ! k)
                * of_nat (dimensions ?t ! (minor_to_major ?t ! k))"
      "\<forall>k. Suc k < length (minor_to_major ?t)
            \<and> prod_list (map ((!) (dimensions ?t)) (take (Suc k) (minor_to_major ?t))) < 2 ^ 63 \<longrightarrow>
            sint (strides ! (minor_to_major ?t ! Suc k)) =
              sint (strides ! (minor_to_major ?t ! k))
                * int (dimensions ?t ! (minor_to_major ?t ! k))"
    by blast
  from t(4) [rule_format, of 0] t(4) [rule_format, of 1] t(5) [rule_format, of 0] t(1,2,3)
  have big: "\<exists>strides. ComputeShapeStrides ?t = Inr strides
     \<and> length strides = 3 \<and> strides ! 2 = 1 \<and> strides ! 1 = strides ! 2 * 4294967296
     \<and> strides ! 0 = strides ! 1 * 4294967296
     \<and> sint (strides ! 1) = sint (strides ! 2) * 4294967296"
    by (simp add: rank_def)
  from small big show ?thesis by (rule conjI)
qed

subsection \<open>Iteration dimensions\<close>

lemma iter_loop_inv:
  assumes "\<forall>d \<in> set rest. d < length dims" "pre \<noteq> []" "index < length pre"
    "index = 0 \<longrightarrow> scaled = 8 * dims ! (pre ! 0)
        \<and> (\<forall>k. 1 \<le> k \<and> k < length pre \<longrightarrow> dims ! (pre ! k) \<le> 8 * dims ! (pre ! 0))"
    "0 < index \<longrightarrow> scaled = dims ! (pre ! index) \<and> 8 * dims ! (pre ! 0) < scaled
        \<and> (\<forall>k. 1 \<le> k \<and> k < length pre \<longrightarrow> dims ! (pre ! k) \<le> scaled)
        \<and> (\<forall>k. 1 \<le> k \<and> k < index \<longrightarrow> dims ! (pre ! k) < scaled)"
  shows "\<exists>j. iter_loop dims rest (length pre) index scaled = Inr j \<and> j < length (pre @ rest)
     \<and> (j = 0 \<longrightarrow> (\<forall>k. 1 \<le> k \<and> k < length (pre @ rest)
                       \<longrightarrow> dims ! ((pre @ rest) ! k) \<le> 8 * dims ! ((pre @ rest) ! 0)))
     \<and> (0 < j \<longrightarrow> 8 * dims ! ((pre @ rest) ! 0) < dims ! ((pre @ rest) ! j)
          \<and> (\<forall>k. 1 \<le> k \<and> k < length (pre @ rest)
                 \<longrightarrow> dims ! ((pre @ rest) ! k) \<le> dims ! ((pre @ rest) ! j))
          \<and> (\<forall>k. 1 \<le> k \<and> k < j \<longrightarrow> dims ! ((pre @ rest) ! k) < dims ! ((pre @ rest) ! j)))"
  using assms
proof (induction rest arbitrary: pre index scaled)
  case Nil
  then show ?case by auto
next
  case (Cons dim rest)
  let ?pre = "pre @ [dim]"
  have dim: "dim < length dims" and rest: "\<forall>d \<in> set rest. d < length dims"
    using Cons.prems(1) by auto
  have nth_old: "?pre ! k = pre ! k" if "k < length pre" for k
    using that by (simp add: nth_append)
  have nth_new: "?pre ! length pre = dim" by simp
  have p0: "?pre ! 0 = pre ! 0" using Cons.prems(2) by (simp add: nth_append)
  show ?case
  proof (cases "scaled < dims ! dim")
    case True
    have "\<exists>j. iter_loop dims rest (length ?pre) (length pre) (dims ! dim) = Inr j \<and> j < length (?pre @ rest)
     \<and> (j = 0 \<longrightarrow> (\<forall>k. 1 \<le> k \<and> k < length (?pre @ rest)
                       \<longrightarrow> dims ! ((?pre @ rest) ! k) \<le> 8 * dims ! ((?pre @ rest) ! 0)))
     \<and> (0 < j \<longrightarrow> 8 * dims ! ((?pre @ rest) ! 0) < dims ! ((?pre @ rest) ! j)
          \<and> (\<forall>k. 1 \<le> k \<and> k < length (?pre @ rest)
                 \<longrightarrow> dims ! ((?pre @ rest) ! k) \<le> dims ! ((?pre @ rest) ! j))
          \<and> (\<forall>k. 1 \<le> k \<and> k < j \<longrightarrow> dims ! ((?pre @ rest) ! k) < dims ! ((?pre @ rest) ! j)))"
    proof (rule Cons.IH [OF rest])
      show "?pre \<noteq> []" by simp
      show "length pre < length ?pre" by simp
      show "length pre = 0 \<longrightarrow> dims ! dim = 8 * dims ! (?pre ! 0)
        \<and> (\<forall>k. 1 \<le> k \<and> k < length ?pre \<longrightarrow> dims ! (?pre ! k) \<le> 8 * dims ! (?pre ! 0))"
        using Cons.prems(2) by simp
      have a: "8 * dims ! (pre ! 0) < dims ! dim"
        using True Cons.prems(4,5) by (cases "index = 0") auto
      have b: "dims ! (pre ! k) < dims ! dim" if "1 \<le> k" "k < length pre" for k
        using True Cons.prems(4,5) that by (cases "index = 0") force+
      show "0 < length pre \<longrightarrow> dims ! dim = dims ! (?pre ! length pre)
        \<and> 8 * dims ! (?pre ! 0) < dims ! dim
        \<and> (\<forall>k. 1 \<le> k \<and> k < length ?pre \<longrightarrow> dims ! (?pre ! k) \<le> dims ! dim)
        \<and> (\<forall>k. 1 \<le> k \<and> k < length pre \<longrightarrow> dims ! (?pre ! k) < dims ! dim)"
        using a b p0 by (auto simp: nth_append less_Suc_eq intro: less_imp_le)
    qed
    then show ?thesis using True dim by simp
  next
    case False
    have "\<exists>j. iter_loop dims rest (length ?pre) index scaled = Inr j \<and> j < length (?pre @ rest)
     \<and> (j = 0 \<longrightarrow> (\<forall>k. 1 \<le> k \<and> k < length (?pre @ rest)
                       \<longrightarrow> dims ! ((?pre @ rest) ! k) \<le> 8 * dims ! ((?pre @ rest) ! 0)))
     \<and> (0 < j \<longrightarrow> 8 * dims ! ((?pre @ rest) ! 0) < dims ! ((?pre @ rest) ! j)
          \<and> (\<forall>k. 1 \<le> k \<and> k < length (?pre @ rest)
                 \<longrightarrow> dims ! ((?pre @ rest) ! k) \<le> dims ! ((?pre @ rest) ! j))
          \<and> (\<forall>k. 1 \<le> k \<and> k < j \<longrightarrow> dims ! ((?pre @ rest) ! k) < dims ! ((?pre @ rest) ! j)))"
    proof (rule Cons.IH [OF rest])
      show "?pre \<noteq> []" by simp
      show "index < length ?pre" using Cons.prems(3) by simp
      show "index = 0 \<longrightarrow> scaled = 8 * dims ! (?pre ! 0)
        \<and> (\<forall>k. 1 \<le> k \<and> k < length ?pre \<longrightarrow> dims ! (?pre ! k) \<le> 8 * dims ! (?pre ! 0))"
        using Cons.prems(4) False p0 by (auto simp: nth_append less_Suc_eq)
      show "0 < index \<longrightarrow> scaled = dims ! (?pre ! index) \<and> 8 * dims ! (?pre ! 0) < scaled
        \<and> (\<forall>k. 1 \<le> k \<and> k < length ?pre \<longrightarrow> dims ! (?pre ! k) \<le> scaled)
        \<and> (\<forall>k. 1 \<le> k \<and> k < index \<longrightarrow> dims ! (?pre ! k) < scaled)"
        using Cons.prems(3,5) False p0 by (auto simp: nth_append less_Suc_eq)
    qed
    then show ?thesis using False dim by simp
  qed
qed

text \<open>
  C3, as stated, fails: with sizes 1, 9 and 10 in minor-to-major order the walk of the
  claim stops at the dimension of size 9 (10 does not exceed 8 times 9), while
  \<open>GetIterationDimensions\<close> compares 10 with 9 itself and chooses the dimension of size 10.
\<close>

theorem C3_iteration_dimensions_counterexample:
  "GetIterationDimensions (MkShape F32 [1, 9, 10] [0, 1, 2] []) = Inr [2, 1, 0]
   \<and> spec_iteration_dimensions (MkShape F32 [1, 9, 10] [0, 1, 2] []) = [1, 0, 2]"
  by (simp add: GetIterationDimensions_def rank_def kMinorDimScale_def
      spec_iteration_dimensions_def)

text \<open>
  C3, amended: for every shape whose minor-to-major list is not empty and has every entry
  below the rank, \<open>GetIterationDimensions\<close> returns the minor-to-major list with entry \<open>0\<close>
  and entry \<open>j\<close> swapped, where \<open>j = 0\<close> when no later entry's size exceeds 8 times the size
  of the first entry, and otherwise \<open>j\<close> is the first position, among the later entries, of
  an entry of the largest size (which then exceeds 8 times the size of the first entry):
  after a replacement the threshold is the size of the chosen dimension, not 8 times it.
\<close>

theorem C3_iteration_dimensions:
  assumes "minor_to_major shape \<noteq> []"
    and "\<forall>d \<in> set (minor_to_major shape). d < rank shape"
  shows "\<exists>j < length (minor_to_major shape).
     GetIterationDimensions shape =
       Inr ((minor_to_major shape)[0 := minor_to_major shape ! j, j := minor_to_major shape ! 0])
     \<and> (j = 0 \<longrightarrow> (\<forall>k. 1 \<le> k \<and> k < length (minor_to_major shape) \<longrightarrow>
            dimensions shape ! (minor_to_major shape ! k)
              \<le> 8 * dimensions shape ! (minor_to_major shape ! 0)))
     \<and> (0 < j \<longrightarrow>
            8 * dimensions shape ! (minor_to_major shape ! 0)
              < dimensions shape ! (minor_to_major shape ! j)
          \<and> (\<forall>k. 1 \<le> k \<and> k < length (minor_to_major shape) \<longrightarrow>
                dimensions shape ! (minor_to_major shape ! k)
                  \<le> dimensions shape ! (minor_to_major shape ! j))
          \<and> (\<forall>k. 1 \<le> k \<and> k < j \<longrightarrow>
                dimensions shape ! (minor_to_major shape ! k)
                  < dimensions shape ! (minor_to_major shape ! j)))"
proof -
  obtain d0 rest where m: "minor_to_major shape = d0 # rest"
    using assms(1) by (cases "minor_to_major shape") auto
  have d0: "d0 < length (dimensions shape)" and rest: "\<forall>d \<in> set rest. d < length (dimensions shape)"
    using assms(2) by (auto simp: m rank_def)
  from iter_loop_inv [OF rest, of "[d0]" 0 "8 * dimensions shape ! d0"]
  obtain j where j: "iter_loop (dimensions shape) rest 1 0 (8 * dimensions shape ! d0) = Inr j"
    "j < length ([d0] @ rest)"
    "j = 0 \<longrightarrow> (\<forall>k. 1 \<le> k \<and> k < length ([d0] @ rest)
                       \<longrightarrow> dimensions shape ! (([d0] @ rest) ! k) \<le> 8 * dimensions shape ! (([d0] @ rest) ! 0))"
    "0 < j \<longrightarrow> 8 * dimensions shape ! (([d0] @ rest) ! 0) < dimensions shape ! (([d0] @ rest) ! j)
          \<and> (\<forall>k. 1 \<le> k \<and> k < length ([d0] @ rest)
                 \<longrightarrow> dimensions shape ! (([d0] @ rest) ! k) \<le> dimensions shape ! (([d0] @ rest) ! j))
          \<and> (\<forall>k. 1 \<le> k \<and> k < j \<longrightarrow> dimensions shape ! (([d0] @ rest) ! k) < dimensions shape ! (([d0] @ rest) ! j))"
    by auto
  have res: "GetIterationDimensions shape =
       Inr ((minor_to_major shape)[0 := minor_to_major shape ! j, j := minor_to_major shape ! 0])"
    using j(1) d0 by (simp add: GetIterationDimensions_def m rank_def kMinorDimScale_def Let_def)
  have app: "[d0] @ rest = minor_to_major shape" by (simp add: m)
  show ?thesis
    using j(2,3,4) res unfolding app by blast
qed

theorem C3_iteration_dimensions_witness:
  "GetIterationDimensions (MkShape F32 [1, 9, 10, 10] [0, 1, 2, 3] []) = Inr [2, 1, 0, 3]"
proof -
  let ?s = "MkShape F32 [1, 9, 10, 10] [0, 1, 2, 3] []"
  let ?size = "\<lambda>k. dimensions ?s ! (minor_to_major ?s ! k)"
  have "minor_to_major ?s \<noteq> []" "\<forall>d \<in> set (minor_to_major ?s). d < rank ?s"
    by (simp_all add: rank_def)
  from C3_iteration_dimensions [OF this] obtain j where
    j: "j < length (minor_to_major ?s)"
      "GetIterationDimensions ?s =
         Inr ((minor_to_major ?s)[0 := minor_to_major ?s ! j, j := minor_to_major ?s ! 0])"
      "j = 0 \<longrightarrow> (\<forall>k. 1 \<le> k \<and> k < length (minor_to_major ?s) \<longrightarrow> ?size k \<le> 8 * ?size 0)"
      "0 < j \<longrightarrow> 8 * ?size 0 < ?size j
         \<and> (\<forall>k. 1 \<le> k \<and> k < length (minor_to_major ?s) \<longrightarrow> ?size k \<le> ?size j)
         \<and> (\<forall>k. 1 \<le> k \<and> k < j \<longrightarrow> ?size k < ?size j)"
    by blast
  have "j < 4" using j(1) by simp
  then consider "j = 0" | "j = 1" | "j = 2" | "j = 3" by linarith
  then have "j = 2"
  proof cases
    case 1
    with j(3) have "\<forall>k. 1 \<le> k \<and> k < length (minor_to_major ?s) \<longrightarrow> ?size k \<le> 8 * ?size 0"
      by blast
    from this [rule_format, of 1] show ?thesis by simp
  next
    case 2
    then have "0 < j" by simp
    with j(4) have "\<forall>k. 1 \<le> k \<and> k < length (minor_to_major ?s) \<longrightarrow> ?size k \<le> ?size j"
      by blast
    from this [rule_format, of 2] 2 show ?thesis by simp
  next
    case 3
    then show ?thesis .
  next
    case 4
    then have "0 < j" by simp
    with j(4) have "\<forall>k. 1 \<le> k \<and> k < j \<longrightarrow> ?size k < ?size j"
      by blast
    from this [rule_format, of 2] 4 show ?thesis by simp
  qed
  with j(2) show ?thesis by simp
qed

subsection \<open>Copy partitions\<close>

lemma find_max_dim_prefix:
  "k \<le> length dims \<Longrightarrow>
   (case fold (max_dim_step dims s) [0..<k] None of
      None \<Rightarrow> \<forall>i < k. i = s
    | Some m \<Rightarrow> m < k \<and> m \<noteq> s \<and> (\<forall>i < k. i \<noteq> s \<longrightarrow> dims ! i \<le> dims ! m)
                \<and> (\<forall>i < m. i \<noteq> s \<longrightarrow> dims ! i < dims ! m))"
proof (induction k)
  case 0
  then show ?case by simp
next
  case (Suc k)
  then have IH: "case fold (max_dim_step dims s) [0..<k] None of
      None \<Rightarrow> \<forall>i < k. i = s
    | Some m \<Rightarrow> m < k \<and> m \<noteq> s \<and> (\<forall>i < k. i \<noteq> s \<longrightarrow> dims ! i \<le> dims ! m)
                \<and> (\<forall>i < m. i \<noteq> s \<longrightarrow> dims ! i < dims ! m)"
    by simp
  have step: "fold (max_dim_step dims s) [0..<Suc k] None =
      max_dim_step dims s k (fold (max_dim_step dims s) [0..<k] None)"
    by simp
  show ?case
  proof (cases "fold (max_dim_step dims s) [0..<k] None")
    case None
    have "\<forall>i < k. i = s" using IH unfolding None by simp
    then show ?thesis unfolding step None
      by (auto simp: max_dim_step_def less_Suc_eq)
  next
    case (Some m)
    have m: "m < k" "m \<noteq> s" "\<forall>i < k. i \<noteq> s \<longrightarrow> dims ! i \<le> dims ! m"
        "\<forall>i < m. i \<noteq> s \<longrightarrow> dims ! i < dims ! m"
      using IH unfolding Some by simp_all
    show ?thesis
    proof (cases "k \<noteq> s \<and> dims ! m < dims ! k")
      case True
      have "dims ! i \<le> dims ! k" if "i < k" "i \<noteq> s" for i
        using m(3) that True by (meson le_less_trans less_imp_le)
      moreover have "dims ! i < dims ! k" if "i < k" "i \<noteq> s" for i
        using m(3) that True by (meson le_less_trans)
      ultimately show ?thesis unfolding step Some using True
        by (auto simp: max_dim_step_def less_Suc_eq)
    next
      case False
      then show ?thesis unfolding step Some using m
        by (auto simp: max_dim_step_def less_Suc_eq)
    qed
  qed
qed

lemma find_max_dim_None:
  "(find_max_dim dims s = None) = (\<forall>i < length dims. i = s)"
  using find_max_dim_prefix [of "length dims" dims s]
  by (cases "find_max_dim dims s")
     (auto simp: find_max_dim_def)

lemma find_max_dim_Some:
  "find_max_dim dims s = Some m \<Longrightarrow>
   m < length dims \<and> m \<noteq> s \<and> (\<forall>i < length dims. i \<noteq> s \<longrightarrow> dims ! i \<le> dims ! m)
     \<and> (\<forall>i < m. i \<noteq> s \<longrightarrow> dims ! i < dims ! m)"
  using find_max_dim_prefix [of "length dims" dims s]
  by (simp add: find_max_dim_def)

lemma parts_loop_closed:
  "0 < ps \<Longrightarrow> c \<le> dims ! m \<Longrightarrow>
   parts_loop dims m ps (dims ! m) c acc =
     Some (acc @ map (tile dims m ps c) [0..<(dims ! m - c + ps - 1) div ps])"
proof (induction "dims ! m - c" arbitrary: c acc rule: less_induct)
  case less
  show ?case
  proof (cases "c < dims ! m")
    case False
    then have "c = dims ! m" using less.prems by simp
    then have "(dims ! m - c + ps - 1) div ps = 0" using less.prems by simp
    then show ?thesis using False by (subst parts_loop.simps) simp
  next
    case True
    define n where "n = min ps (dims ! m - c)"
    have n: "0 < n" "c + n \<le> dims ! m" "c + n = min (c + ps) (dims ! m)"
      using True less.prems by (auto simp: n_def)
    have step: "parts_loop dims m ps (dims ! m) c acc =
        parts_loop dims m ps (dims ! m) (c + n) (acc @ [tile dims m ps c 0])"
      using True n(3)
      by (subst parts_loop.simps) (simp add: Let_def n_def tile_def CopyPartition_init_def)
    have IH: "parts_loop dims m ps (dims ! m) (c + n) (acc @ [tile dims m ps c 0]) =
        Some ((acc @ [tile dims m ps c 0]) @
              map (tile dims m ps (c + n)) [0..<(dims ! m - (c + n) + ps - 1) div ps])"
      using n less.prems by (intro less.hyps) auto
    have cnt: "(dims ! m - c + ps - 1) div ps = Suc ((dims ! m - (c + n) + ps - 1) div ps)"
    proof (cases "c + ps \<le> dims ! m")
      case True
      define x where "x = dims ! m - (c + ps) + ps - 1"
      have "n = ps" using True by (simp add: n_def)
      moreover have "dims ! m - c + ps - 1 = x + ps"
        using True less.prems by (simp add: x_def)
      moreover have "(x + ps) div ps = Suc (x div ps)"
        using less.prems(1) div_add_self2 [of ps x] by simp
      ultimately show ?thesis by (simp add: x_def)
    next
      case False
      then have "c + n = dims ! m" using n by simp
      moreover have "dims ! m - c + ps - 1 < 2 * ps" "ps \<le> dims ! m - c + ps - 1"
        using False \<open>c < dims ! m\<close> by auto
      then have "(dims ! m - c + ps - 1) div ps = 1"
        by (metis One_nat_def Suc_1 div_nat_eqI mult.commute mult_1)
      ultimately show ?thesis using less.prems(1) by simp
    qed
    have tl: "map (tile dims m ps (c + n)) [0..<k] = map (tile dims m ps c \<circ> Suc) [0..<k]"
      if "0 < k \<longrightarrow> n = ps" for k
      using that by (cases "k = 0") (auto simp: tile_def add.assoc)
    have "0 < (dims ! m - (c + n) + ps - 1) div ps \<longrightarrow> n = ps"
    proof
      assume "0 < (dims ! m - (c + n) + ps - 1) div ps"
      then have "c + n < dims ! m"
        by (metis Suc_pred' add_diff_cancel_left' diff_is_0_eq div_less leI less.prems(1) less_Suc_eq_le n(2) neq0_conv plus_nat.add_0 diff_diff_cancel le_add_diff_inverse2 less_irrefl zero_less_diff)
      then show "n = ps" using n(3) by (simp add: min_def split: if_splits)
    qed
    from tl [OF this]
    have tl': "map (tile dims m ps (c + n)) [0..<(dims ! m - (c + n) + ps - 1) div ps] =
        map (tile dims m ps c \<circ> Suc) [0..<(dims ! m - (c + n) + ps - 1) div ps]" .
    have hd: "map f [0..<Suc K] = f 0 # map (f \<circ> Suc) [0..<K]" for f :: "nat \<Rightarrow> CopyPartition" and K
      by (simp add: upt_conv_Cons map_Suc_upt [symmetric] del: upt_Suc)
    show ?thesis
      unfolding step IH cnt hd tl' by simp
  qed
qed

lemma unit_elements_pos:
  assumes "\<forall>d \<in> set dims. 0 < (d::nat)" "m < length dims"
  shows "0 < prod_list dims div dims ! m"
proof -
  have "dims ! m \<in> set dims" using assms(2) by simp
  then have "dims ! m dvd prod_list dims" by (rule prod_list_dvd)
  moreover have "prod_list dims \<noteq> 0" using assms(1) by (auto simp: prod_list_zero_iff)
  then have "0 < prod_list dims" by simp
  moreover have "0 < dims ! m" using assms by simp
  ultimately show ?thesis by (auto elim!: dvdE)
qed

lemma CreateCopyPartitions_closed:
  assumes "\<forall>d \<in> set dims. 0 < d" "find_max_dim dims strided = Some m"
  shows "CreateCopyPartitions hc dims strided =
     Some (Inr (map (tile dims m
        (max (max (dims ! m div max (hc div 2) 1) 1)
             (kMinThreadElements div (prod_list dims div dims ! m))) 0)
        [0..<(dims ! m +
               max (max (dims ! m div max (hc div 2) 1) 1)
                   (kMinThreadElements div (prod_list dims div dims ! m)) - 1)
             div max (max (dims ! m div max (hc div 2) 1) 1)
                     (kMinThreadElements div (prod_list dims div dims ! m))]))"
proof -
  have m: "m < length dims" using find_max_dim_Some [OF assms(2)] by simp
  have pos: "0 < dims ! m" using assms(1) m by simp
  have unit: "0 < prod_list dims div dims ! m" using unit_elements_pos [OF assms(1) m] .
  define ps where "ps = max (max (dims ! m div max (hc div 2) 1) 1)
             (kMinThreadElements div (prod_list dims div dims ! m))"
  have ps: "0 < ps" by (simp add: ps_def)
  have "parts_loop dims m ps (dims ! m) 0 [] =
      Some ([] @ map (tile dims m ps 0) [0..<(dims ! m - 0 + ps - 1) div ps])"
    using ps by (intro parts_loop_closed) simp_all
  then show ?thesis
    unfolding ps_def using pos unit by (simp add: CreateCopyPartitions_def assms(2) Let_def)
qed

lemma tile_count: "0 < ps \<Longrightarrow> (k < (D + ps - 1) div ps) = (k * ps < (D::nat))"
proof -
  assume ps: "0 < ps"
  have "(k < (D + ps - 1) div ps) = (Suc k \<le> (D + ps - 1) div ps)" by auto
  also have "\<dots> = (Suc k * ps \<le> D + ps - 1)"
    using ps by (simp add: less_eq_div_iff_mult_less_eq)
  also have "\<dots> = (k * ps < D)" using ps by auto
  finally show ?thesis .
qed

text \<open>
  C4, as stated, fails: for sizes 200000, 2 and 1 with inner dimension 0 and eight hardware
  threads, the part size of the claim is \<open>max (2 div 4) (100000 div 200000) = 0\<close>, while
  \<open>CreateCopyPartitions\<close> clamps the first quotient at 1 and returns two tiles of width 1.
\<close>

theorem C4_copy_partitions_counterexample:
  "CreateCopyPartitions 8 [200000, 2, 1] 0 =
     Some (Inr [\<lparr>base = [0, 0, 0], limit = [200000, 1, 1]\<rparr>,
                \<lparr>base = [0, 1, 0], limit = [200000, 2, 1]\<rparr>])
   \<and> spec_part_size 8 [200000, 2, 1] 1 = 0"
  by (simp add: CreateCopyPartitions_def find_max_dim_def max_dim_step_def upt_rec
      kMinThreadElements_def parts_loop.simps CopyPartition_init_def Let_def spec_part_size_def)

text \<open>
  C4, amended: for every list of positive dimension sizes that has a dimension other than
  the inner one, \<open>CreateCopyPartitions\<close> splits a largest dimension \<open>max_dim\<close> other than
  the inner one, with
  \<open>part_size = max (max (split_dim_size / max_parts) 1) (100000 / (total / split_dim_size))\<close>
  and \<open>max_parts = max (hardware_concurrency / 2) 1\<close>; partition \<open>k\<close> runs from
  \<open>k \<sqdot> part_size\<close> to \<open>min ((k + 1) \<sqdot> part_size) split_dim_size\<close> on the split dimension and
  over the full extent of every other dimension.
\<close>

theorem C4_copy_partitions:
  assumes "\<forall>d \<in> set dims. 0 < d" and "\<exists>i < length dims. i \<noteq> strided_copy_dimension"
  shows "\<exists>max_dim part_size.
     max_dim < length dims \<and> max_dim \<noteq> strided_copy_dimension
     \<and> (\<forall>i < length dims. i \<noteq> strided_copy_dimension \<longrightarrow> dims ! i \<le> dims ! max_dim)
     \<and> part_size = max (max (dims ! max_dim div max (hardware_concurrency div 2) 1) 1)
                       (100000 div (prod_list dims div dims ! max_dim))
     \<and> CreateCopyPartitions hardware_concurrency dims strided_copy_dimension =
         Some (Inr (map (\<lambda>k. \<lparr>base = (replicate (length dims) 0)[max_dim := k * part_size],
                                limit = dims[max_dim := min ((k + 1) * part_size) (dims ! max_dim)]\<rparr>)
                      [0..<(dims ! max_dim + part_size - 1) div part_size]))"
proof -
  have "find_max_dim dims strided_copy_dimension \<noteq> None"
    using assms(2) by (auto simp: find_max_dim_None)
  then obtain m where m: "find_max_dim dims strided_copy_dimension = Some m" by auto
  note props = find_max_dim_Some [OF m]
  have tile: "tile dims m ps 0 = (\<lambda>k. \<lparr>base = (replicate (length dims) 0)[m := k * ps],
                                limit = dims[m := min ((k + 1) * ps) (dims ! m)]\<rparr>)" for ps
    by (rule ext) (simp add: tile_def)
  show ?thesis
    using props CreateCopyPartitions_closed [OF assms(1) m, of hardware_concurrency]
    unfolding tile kMinThreadElements_def by blast
qed

theorem C4_copy_partitions_witness:
  "CreateCopyPartitions 8 [1000000, 8] 0 =
     Some (Inr [\<lparr>base = [0, 0], limit = [1000000, 2]\<rparr>, \<lparr>base = [0, 2], limit = [1000000, 4]\<rparr>,
                \<lparr>base = [0, 4], limit = [1000000, 6]\<rparr>, \<lparr>base = [0, 6], limit = [1000000, 8]\<rparr>])"
proof -
  have "\<forall>d \<in> set [1000000, 8::nat]. 0 < d" "\<exists>i < length [1000000, 8::nat]. i \<noteq> 0"
    by auto
  from C4_copy_partitions [OF this, of 8] obtain max_dim part_size where
    r: "max_dim < length [1000000, 8::nat]" "max_dim \<noteq> 0"
      "part_size = max (max ([1000000, 8] ! max_dim div max (8 div 2) 1) 1)
                       (100000 div (prod_list [1000000, 8] div [1000000, 8] ! max_dim))"
      "CreateCopyPartitions 8 [1000000, 8] 0 =
         Some (Inr (map (\<lambda>k. \<lparr>base = (replicate (length [1000000, 8::nat]) 0)[max_dim := k * part_size],
                                limit = [1000000, 8][max_dim := min ((k + 1) * part_size) ([1000000, 8] ! max_dim)]\<rparr>)
                      [0..<([1000000, 8] ! max_dim + part_size - 1) div part_size]))"
    by blast
  have m: "max_dim = 1" using r(1,2) by simp
  have ps: "part_size = 2" using r(3) unfolding m by simp
  have upt: "[0..<4] = [0, 1, 2, 3::nat]" by (simp add: upt_rec)
  show ?thesis using r(4) unfolding m ps by (simp add: upt)
qed

text \<open>
  C10, as stated, fails: for the one-element dimension list \<open>[5]\<close> and strided copy
  dimension 0 there is no other dimension, \<^verbatim>\<open>max_dim\<close> stays \<^verbatim>\<open>-1\<close> and the code reads
  \<^verbatim>\<open>dimensions[-1]\<close>; no partition list is returned. (The comment in \<^verbatim>\<open>CopyTensors\<close>
  says that the code is only valid for ranks from 2 on.)
\<close>

theorem C10_partitions_tile_counterexample:
  "CreateCopyPartitions 8 [5] 0 = Some (Inl OutOfRange)"
  by (simp add: CreateCopyPartitions_def find_max_dim_def max_dim_step_def)

text \<open>
  C10, amended: for every list of positive dimension sizes that has a dimension other than
  the strided copy dimension, \<open>CreateCopyPartitions\<close> returns a non-empty list of
  partitions; on the split dimension \<open>max_dim\<close> each partition has \<open>base < limit\<close>, the
  first starts at 0, the last ends at the dimension size, each ends where the next starts,
  so the intervals are pairwise disjoint and cover \<open>[0, split_dim_size)\<close>; on every other
  dimension each partition has base 0 and limit the dimension size.
\<close>

theorem C10_partitions_tile:
  assumes "\<forall>d \<in> set dims. 0 < d" and "\<exists>i < length dims. i \<noteq> strided_copy_dimension"
  shows "\<exists>parts max_dim.
     CreateCopyPartitions hardware_concurrency dims strided_copy_dimension = Some (Inr parts)
     \<and> find_max_dim dims strided_copy_dimension = Some max_dim
     \<and> max_dim < length dims \<and> max_dim \<noteq> strided_copy_dimension
     \<and> parts \<noteq> []
     \<and> (\<forall>p \<in> set parts. length (base p) = length dims \<and> length (limit p) = length dims
           \<and> base p ! max_dim < limit p ! max_dim
           \<and> (\<forall>i < length dims. i \<noteq> max_dim \<longrightarrow> base p ! i = 0 \<and> limit p ! i = dims ! i))
     \<and> base (parts ! 0) ! max_dim = 0
     \<and> limit (parts ! (length parts - 1)) ! max_dim = dims ! max_dim
     \<and> (\<forall>k. Suc k < length parts \<longrightarrow>
           limit (parts ! k) ! max_dim = base (parts ! Suc k) ! max_dim)
     \<and> (\<forall>j k. j < k \<and> k < length parts \<longrightarrow>
           limit (parts ! j) ! max_dim \<le> base (parts ! k) ! max_dim)
     \<and> (\<forall>x < dims ! max_dim. \<exists>k < length parts.
           base (parts ! k) ! max_dim \<le> x \<and> x < limit (parts ! k) ! max_dim)"
proof -
  have "find_max_dim dims strided_copy_dimension \<noteq> None"
    using assms(2) by (auto simp: find_max_dim_None)
  then obtain m where m: "find_max_dim dims strided_copy_dimension = Some m" by auto
  have ml: "m < length dims" and ms: "m \<noteq> strided_copy_dimension"
    using find_max_dim_Some [OF m] by simp_all
  define D where "D = dims ! m"
  have D: "0 < D" using assms(1) ml by (simp add: D_def)
  define ps where "ps = max (max (D div max (hardware_concurrency div 2) 1) 1)
             (kMinThreadElements div (prod_list dims div D))"
  have ps: "0 < ps" by (simp add: ps_def)
  define N where "N = (D + ps - 1) div ps"
  define parts where "parts = map (tile dims m ps 0) [0..<N]"
  have res: "CreateCopyPartitions hardware_concurrency dims strided_copy_dimension = Some (Inr parts)"
    using CreateCopyPartitions_closed [OF assms(1) m, of hardware_concurrency]
    by (simp add: parts_def N_def ps_def D_def)
  have len: "length parts = N" by (simp add: parts_def)
  have cnt: "(k < N) = (k * ps < D)" for k
    unfolding N_def using ps by (rule tile_count)
  have N: "0 < N" using cnt [of 0] D by simp
  have nth: "parts ! k = tile dims m ps 0 k" if "k < N" for k
    using that by (simp add: parts_def)
  have b: "base (tile dims m ps 0 k) ! m = k * ps"
    and l: "limit (tile dims m ps 0 k) ! m = min ((k + 1) * ps) D" for k
    using ml by (simp_all add: tile_def D_def)
  have other: "length (base (tile dims m ps 0 k)) = length dims"
      "length (limit (tile dims m ps 0 k)) = length dims"
      "\<forall>i < length dims. i \<noteq> m \<longrightarrow> base (tile dims m ps 0 k) ! i = 0
          \<and> limit (tile dims m ps 0 k) ! i = dims ! i" for k
    by (simp_all add: tile_def)
  have nonempty: "base (tile dims m ps 0 k) ! m < limit (tile dims m ps 0 k) ! m" if "k < N" for k
    using that ps cnt [of k] by (simp add: b l)
  have "\<forall>p \<in> set parts. length (base p) = length dims \<and> length (limit p) = length dims
           \<and> base p ! m < limit p ! m
           \<and> (\<forall>i < length dims. i \<noteq> m \<longrightarrow> base p ! i = 0 \<and> limit p ! i = dims ! i)"
    using other nonempty by (auto simp: parts_def)
  moreover have "base (parts ! 0) ! m = 0" using N by (simp add: nth b)
  moreover have "limit (parts ! (length parts - 1)) ! m = dims ! m"
  proof -
    have "\<not> (Suc (N - 1) * ps < D)" using cnt [of "Suc (N - 1)"] N by simp
    then have "min ((N - 1 + 1) * ps) D = D" by simp
    then show ?thesis using N by (simp add: len nth l D_def)
  qed
  moreover have "limit (parts ! k) ! m = base (parts ! Suc k) ! m" if "Suc k < length parts" for k
  proof -
    have "Suc k * ps < D" using that cnt [of "Suc k"] by (simp add: len)
    then show ?thesis using that by (simp add: len nth b l)
  qed
  moreover have "limit (parts ! j) ! m \<le> base (parts ! k) ! m" if "j < k \<and> k < length parts" for j k
  proof -
    have "(j + 1) * ps \<le> k * ps" using that by (intro mult_le_mono1) simp
    then show ?thesis using that by (simp add: len nth b l min.coboundedI1)
  qed
  moreover have "\<exists>k < length parts. base (parts ! k) ! m \<le> x \<and> x < limit (parts ! k) ! m"
    if "x < dims ! m" for x
  proof -
    let ?k = "x div ps"
    have le: "?k * ps \<le> x" by simp
    then have "?k * ps < D" using that unfolding D_def by (rule le_less_trans)
    then have k: "?k < N" by (simp add: cnt)
    have "x < (?k + 1) * ps" using ps
      by (metis add.commute dividend_less_div_times mult.commute mult_Suc Suc_eq_plus1 add.assoc less_diff_conv plus_1_eq_Suc)
    then show ?thesis using k le that by (auto simp: len nth b l D_def intro!: exI [of _ ?k])
  qed
  ultimately show ?thesis using res m ml ms N len by (intro exI [of _ parts] exI [of _ m]) auto
qed

theorem C10_partitions_tile_witness:
  "\<exists>parts max_dim.
     CreateCopyPartitions 8 [1000000, 8] 0 = Some (Inr parts) \<and> max_dim = 1 \<and> parts \<noteq> []
     \<and> base (parts ! 0) ! max_dim = 0 \<and> limit (parts ! (length parts - 1)) ! max_dim = 8"
proof -
  have "\<forall>d \<in> set [1000000, 8::nat]. 0 < d" "\<exists>i < length [1000000, 8::nat]. i \<noteq> 0"
    by auto
  from C10_partitions_tile [OF this, of 8] obtain parts max_dim where
    r: "CreateCopyPartitions 8 [1000000, 8] 0 = Some (Inr parts)"
      "max_dim < length [1000000, 8::nat]" "max_dim \<noteq> 0" "parts \<noteq> []"
      "base (parts ! 0) ! max_dim = 0"
      "limit (parts ! (length parts - 1)) ! max_dim = [1000000, 8] ! max_dim"
    by blast
  have "max_dim = 1" using r(2,3) by simp
  with r show ?thesis by auto
qed

subsection \<open>Round trip through a literal\<close>

lemma static_cast_same [simp]: "static_cast conv T T = (\<lambda>v. v)"
  by (rule ext) (simp add: static_cast_def)

lemma CopyData_identity:
  assumes "length source = n" "length dest = n"
    and "(S = D \<and> \<not> NeedCast S) \<or> (D = at_BFloat16 \<and> S = tf_bfloat16)
           \<or> (D = tf_bfloat16 \<and> S = at_BFloat16)"
  shows "CopyData conv D S dest source n = Some (Inr source)"
  using assms
  by (auto simp: CopyData_def std_copy_def CheckedMemcpy_def static_cast_def NeedCast_def)

lemma CopyTensors_same_layout:
  assumes "dimensions src_shape = dimensions dest_shape"
    and "minor_to_major src_shape = minor_to_major dest_shape"
    and "length src = ElementsIn src_shape" "length dest = ElementsIn src_shape"
    and "dest_buffer_size = ElementsIn src_shape * sizeof D"
    and "(S = D \<and> \<not> NeedCast S) \<or> (D = at_BFloat16 \<and> S = tf_bfloat16)
           \<or> (D = tf_bfloat16 \<and> S = at_BFloat16)"
  shows "CopyTensors conv hc S D src src_shape dest dest_buffer_size dest_shape = Some (Inr src)"
  using assms CopyData_identity [OF assms(3,4,6), of conv]
  by (simp add: CopyTensors_def SameDimensions_def Let_def)

lemma MakeSwiftTensorLayout_sel [simp]:
  "dimensions (MakeSwiftTensorLayout d ty) = d"
  "element_type (MakeSwiftTensorLayout d ty) = ty"
  "minor_to_major (MakeSwiftTensorLayout d ty) = rev [0..<length d]"
  "ElementsIn (MakeSwiftTensorLayout d ty) = prod_list d"
  by (simp_all add: MakeSwiftTensorLayout_def ElementsIn_def)

lemma TensorToBuffer_swift_layout:
  assumes "length (buffer t) = prod_list (tensor_shape t)"
    and "XlaTypeFromTensorType (scalar_type t) device = Inr type"
    and "sz = prod_list (tensor_shape t) * sizeof D"
    and "(S = D \<and> \<not> NeedCast S) \<or> (D = at_BFloat16 \<and> S = tf_bfloat16)
           \<or> (D = tf_bfloat16 \<and> S = at_BFloat16)"
  shows "TensorToBuffer conv hc S D t (MakeSwiftTensorLayout (tensor_shape t) type)
       (map fresh [0..<prod_list (tensor_shape t)]) sz device = Some (Inr (buffer t))"
  unfolding TensorToBuffer_def assms(2)
  using assms(1,3,4) by (simp add: CopyTensors_same_layout)

lemma GetTensorLiteral_null_shape:
  assumes "scalar_type t \<noteq> Half" "length (buffer t) = prod_list (tensor_shape t)"
    and "XlaTypeFromTensorType (scalar_type t) (GetDeviceOrCurrent cur device) = Inr type"
    and "TensorTypeToRawXlaType (scalar_type t) = Inr type"
  shows "GetTensorLiteral conv hc fresh cur t None device =
     Some (Inr \<lparr>literal_shape = MakeSwiftTensorLayout (tensor_shape t) type,
                literal_data = buffer t\<rparr>)"
proof -
  note tb = TensorToBuffer_swift_layout [OF assms(2)]
  have pop: "PopulateTensorBuffer conv hc t (MakeSwiftTensorLayout (tensor_shape t) type)
       (map fresh [0..<prod_list (tensor_shape t)])
       (prod_list (tensor_shape t) * ByteSizeOfPrimitiveType type)
       (GetDeviceOrCurrent cur device) = Some (Inr (buffer t))"
    using assms(1,3,4)
    by (cases "scalar_type t")
       (auto simp: PopulateTensorBuffer_def TensorToBufferSType_def NeedCast_def intro!: tb)
  show ?thesis
    using pop assms(3) by (simp add: GetTensorLiteral_def Let_def)
qed

lemma XlaLiteralToTensor_swift_layout:
  assumes "length (buffer t) = prod_list (tensor_shape t)"
    and "atype = scalar_type t"
    and "(S = D \<and> \<not> NeedCast S) \<or> (D = at_BFloat16 \<and> S = tf_bfloat16)
           \<or> (D = tf_bfloat16 \<and> S = at_BFloat16)"
  shows "XlaLiteralToTensor conv hc fresh S D
       \<lparr>literal_shape = MakeSwiftTensorLayout (tensor_shape t) ty, literal_data = buffer t\<rparr>
       atype = Some (Inr (t :: 'e Tensor))"
  using assms by (simp add: XlaLiteralToTensor_def Let_def CopyTensors_same_layout)

lemma MakeTensorFromXlaLiteral_swift_layout:
  assumes "scalar_type t \<noteq> Half" "length (buffer t) = prod_list (tensor_shape t)"
    and "TensorTypeToRawXlaType (scalar_type t) = Inr type"
  shows "MakeTensorFromXlaLiteral conv hc fresh
       \<lparr>literal_shape = MakeSwiftTensorLayout (tensor_shape t) type, literal_data = buffer t\<rparr>
       (scalar_type t) = Some (Inr (t :: 'e Tensor))"
  using assms(1,3)
  by (cases "scalar_type t")
     (auto simp: MakeTensorFromXlaLiteral_def XlaLiteralToTensorHelper_def NeedCast_def
        intro!: XlaLiteralToTensor_swift_layout [OF assms(2)])

text \<open>
  C2: for every tensor of a supported scalar kind whose buffer holds as many elements as
  its dimension list asks for, on a device that is not a TPU, \<open>GetTensorLiteral\<close> with a null
  shape returns a literal, and \<open>MakeTensorFromXlaLiteral\<close> of that literal with the tensor's
  scalar kind returns the tensor itself: the same dimensions, kind and elements. (Neither
  function consults the BF16 toggle.)
\<close>

theorem C2_round_trip:
  assumes "scalar_type t \<noteq> Half" and "length (buffer t) = prod_list (tensor_shape t)"
    and "hw_type (GetDeviceOrCurrent cur device) \<noteq> TPU"
  shows "\<exists>literal. GetTensorLiteral conv hc fresh cur t None device = Some (Inr literal)
     \<and> MakeTensorFromXlaLiteral conv hc fresh' literal (scalar_type t) = Some (Inr t)"
proof -
  obtain type where raw: "TensorTypeToRawXlaType (scalar_type t) = Inr type"
    using assms(1) by (cases "scalar_type t") auto
  have dev: "XlaTypeFromTensorType (scalar_type t) (GetDeviceOrCurrent cur device) = Inr type"
    using raw assms(3) by (cases "scalar_type t") auto
  show ?thesis
    using GetTensorLiteral_null_shape [OF assms(1,2) dev raw, of conv hc fresh]
      MakeTensorFromXlaLiteral_swift_layout [OF assms(1,2) raw, of conv hc fresh']
    by simp
qed

theorem C2_round_trip_witness:
  "\<exists>literal. GetTensorLiteral (\<lambda>S D v. v) 8 (\<lambda>i. 0) \<lparr>hw_type = CPU, ordinal = 0\<rparr>
        \<lparr>tensor_shape = [2, 3], scalar_type = Int_t, buffer = [1, 2, 3, 4, 5, 6::int]\<rparr>
        None (Some \<lparr>hw_type = GPU, ordinal = 0\<rparr>) = Some (Inr literal)
     \<and> MakeTensorFromXlaLiteral (\<lambda>S D v. v) 8 (\<lambda>i. 0) literal Int_t =
         Some (Inr \<lparr>tensor_shape = [2, 3], scalar_type = Int_t, buffer = [1, 2, 3, 4, 5, 6::int]\<rparr>)"
  using C2_round_trip [of "\<lparr>tensor_shape = [2, 3], scalar_type = Int_t, buffer = [1, 2, 3, 4, 5, 6::int]\<rparr>"
      "\<lparr>hw_type = CPU, ordinal = 0\<rparr>" "Some \<lparr>hw_type = GPU, ordinal = 0\<rparr>"
      "\<lambda>S D v. v" 8 "\<lambda>i. 0" "\<lambda>i. 0"]
  by (simp add: GetDeviceOrCurrent_def)

subsection \<open>Hashing\<close>

lemma length_concat_object_bytes:
  "\<forall>e \<in> set xs. length (object_bytes e) = k \<Longrightarrow>
   length (concat (map object_bytes xs)) = length xs * k"
  by (induction xs) auto

text \<open>
  C9: for every tensor of a supported scalar kind whose elements each occupy
  \<open>GetSizeof\<close> bytes, \<open>TensorHash\<close> is the byte hash of exactly the
  \<open>element_count \<sqdot> sizeof(scalar)\<close> bytes of the buffer (none of the bytes beyond it), and
  it does not change when the tensor's shape does.
\<close>

theorem C9_tensor_hash:
  assumes "scalar_type t \<noteq> Half"
    and "\<forall>e \<in> set (buffer t). length (object_bytes e) = GetSizeof (scalar_type t)"
  shows "TensorHash DataHash object_bytes beyond t
       = Inr (DataHash (concat (map object_bytes (buffer t))))
     \<and> length (concat (map object_bytes (buffer t)))
       = length (buffer t) * GetSizeof (scalar_type t)
     \<and> TensorHash DataHash object_bytes beyond (t\<lparr>tensor_shape := other_shape\<rparr>)
       = TensorHash DataHash object_bytes beyond t"
proof -
  have len: "length (concat (map object_bytes (buffer t)))
      = length (buffer t) * GetSizeof (scalar_type t)"
    using assms(2) by (rule length_concat_object_bytes)
  then have "take (length (buffer t) * GetSizeof (scalar_type t))
      (concat (map object_bytes (buffer t)) @ beyond) = concat (map object_bytes (buffer t))"
    by simp
  then have "TensorHash DataHash object_bytes beyond t
       = Inr (DataHash (concat (map object_bytes (buffer t))))"
    using assms(1) by (cases "scalar_type t") (simp_all add: TensorHash_def Let_def)
  moreover have "TensorHash DataHash object_bytes beyond (t\<lparr>tensor_shape := other_shape\<rparr>)
       = TensorHash DataHash object_bytes beyond t"
    by (simp add: TensorHash_def)
  ultimately show ?thesis using len by simp
qed

theorem C9_tensor_hash_witness:
  "TensorHash sum_list (\<lambda>e. [e mod 256, e div 256]) [7, 7, 7]
       \<lparr>tensor_shape = [3], scalar_type = Short, buffer = [1, 2, 260::nat]\<rparr> = Inr (8::nat)
   \<and> TensorHash sum_list (\<lambda>e. [e mod 256, e div 256]) [7, 7, 7]
       \<lparr>tensor_shape = [1, 3], scalar_type = Short, buffer = [1, 2, 260::nat]\<rparr> = Inr (8::nat)"
proof -
  let ?t = "\<lparr>tensor_shape = [3], scalar_type = Short, buffer = [1, 2, 260::nat]\<rparr>"
  let ?ob = "\<lambda>e::nat. [e mod 256, e div 256]"
  have "scalar_type ?t \<noteq> Half" "\<forall>e \<in> set (buffer ?t). length (?ob e) = GetSizeof (scalar_type ?t)"
    by simp_all
  from C9_tensor_hash [OF this, of sum_list "[7, 7, 7]" "[1, 3]"] show ?thesis by simp
qed

subsection \<open>Partition independence of the strided copy\<close>

lemma exec_accesses_append:
  "exec_accesses cast source (as @ bs) dest =
     (case exec_accesses cast source as dest of
        Inl e \<Rightarrow> Inl e
      | Inr dest' \<Rightarrow> exec_accesses cast source bs dest')"
  by (induction as arbitrary: dest) auto

lemma StridedCopy_loop_accesses:
  "0 < source_stride \<Longrightarrow>
   StridedCopy_loop cast dest d dest_stride source s source_stride (s + n * source_stride) =
     Some (exec_accesses cast source
       (map (\<lambda>k. (s + k * source_stride, d + k * dest_stride)) [0..<n]) dest)"
proof (induction n arbitrary: dest d s)
  case 0
  then show ?case by (subst StridedCopy_loop.simps) simp
next
  case (Suc n)
  have shift: "map (\<lambda>k. (s + k * source_stride, d + k * dest_stride)) [0..<Suc n] =
      (s, d) # map (\<lambda>k. (s + source_stride + k * source_stride, d + dest_stride + k * dest_stride)) [0..<n]"
    by (simp add: upt_conv_Cons map_Suc_upt [symmetric] add.assoc del: upt_Suc)
  have top: "s + Suc n * source_stride = (s + source_stride) + n * source_stride" by simp
  have IH: "StridedCopy_loop cast dest' (d + dest_stride) dest_stride source (s + source_stride)
        source_stride (s + Suc n * source_stride) =
      Some (exec_accesses cast source
        (map (\<lambda>k. (s + source_stride + k * source_stride, d + dest_stride + k * dest_stride)) [0..<n])
        dest')" for dest'
    unfolding top by (rule Suc.IH [OF Suc.prems])
  have lt: "s < s + Suc n * source_stride" using Suc.prems by simp
  show ?case
  proof (cases "s < length source \<and> d < length dest")
    case True
    show ?thesis
      unfolding shift
      by (subst StridedCopy_loop.simps) (simp only: lt True IH if_True exec_accesses.simps simp_thms)
  next
    case False
    show ?thesis
      unfolding shift
      by (subst StridedCopy_loop.simps) (simp only: lt False if_True if_False exec_accesses.simps simp_thms)
  qed
qed

lemma StridedCopy_accesses:
  "StridedCopy conv S D dest d dest_stride source s source_stride n =
     Some (exec_accesses (Caster_cast conv S D) source
       (row_accesses s source_stride d dest_stride n) dest)"
proof (cases "source_stride = 0")
  case True
  then show ?thesis
    unfolding StridedCopy_def row_accesses_def
    by (subst StridedCopy_loop.simps) simp
next
  case False
  then show ?thesis
    unfolding StridedCopy_def row_accesses_def
    by (simp add: StridedCopy_loop_accesses)
qed

lemma length_store [simp]: "length (store cast source as dest) = length dest"
  unfolding store_def by (induction as arbitrary: dest) auto

lemma exec_accesses_store:
  "exec_accesses cast source as dest =
     (if in_range source dest (set as) then Inr (store cast source as dest) else Inl OutOfRange)"
proof (induction as arbitrary: dest)
  case Nil
  then show ?case by (simp add: in_range_def store_def)
next
  case (Cons a as)
  obtain s d where a: "a = (s, d)" by (cases a)
  have "in_range source (dest[d := v]) W = in_range source dest W" for v W
    by (simp add: in_range_def)
  then show ?case
    unfolding a by (auto simp: Cons.IH in_range_def store_def)
qed

lemma store_untouched:
  "a \<notin> snd ` set as \<Longrightarrow> store cast source as dest ! a = dest ! a"
  unfolding store_def
  by (induction as arbitrary: dest) (auto simp: image_iff)

lemma store_written:
  assumes "\<forall>(s, d) \<in> set as. \<forall>(s', d') \<in> set as. d = d' \<longrightarrow> s = s'"
    and "(s, a) \<in> set as" "a < length dest"
  shows "store cast source as dest ! a = cast (source ! s)"
  using assms
proof (induction as arbitrary: dest)
  case Nil
  then show ?case by simp
next
  case (Cons x as)
  obtain s0 d0 where x: "x = (s0, d0)" by (cases x)
  have step: "store cast source (x # as) dest = store cast source as (dest[d0 := cast (source ! s0)])"
    by (simp add: store_def x)
  have func: "\<forall>(s, d) \<in> set as. \<forall>(s', d') \<in> set as. d = d' \<longrightarrow> s = s'"
    using Cons.prems(1) by auto
  show ?case
  proof (cases "(s, a) \<in> set as")
    case True
    then show ?thesis unfolding step using Cons.IH [OF func True] Cons.prems(3) by simp
  next
    case False
    then have sa: "s0 = s" "d0 = a" using Cons.prems(2) x by auto
    have "a \<notin> snd ` set as"
    proof
      assume "a \<in> snd ` set as"
      then obtain s' where s': "(s', a) \<in> set as" by auto
      with Cons.prems(1) have "s' = s" unfolding x sa by auto
      with s' False show False by simp
    qed
    then show ?thesis unfolding step sa using Cons.prems(3) by (simp add: store_untouched)
  qed
qed

lemma exec_accesses_cong:
  assumes "set as = set bs"
    and "\<forall>(s, d) \<in> set as. \<forall>(s', d') \<in> set as. d = d' \<longrightarrow> s = s'"
  shows "exec_accesses cast source as dest = exec_accesses cast source bs dest"
proof -
  have "store cast source as dest = store cast source bs dest"
  proof (rule nth_equalityI)
    show "length (store cast source as dest) = length (store cast source bs dest)" by simp
    fix a assume "a < length (store cast source as dest)"
    then have a: "a < length dest" by simp
    show "store cast source as dest ! a = store cast source bs dest ! a"
    proof (cases "a \<in> snd ` set as")
      case True
      then obtain s where s: "(s, a) \<in> set as" by auto
      show ?thesis
        using store_written [OF assms(2) s a] store_written [OF assms(2) [unfolded assms(1)] s [unfolded assms(1)] a]
        by simp
    next
      case False
      then show ?thesis using assms(1) by (simp add: store_untouched)
    qed
  qed
  then show ?thesis by (simp add: exec_accesses_store assms(1))
qed

lemma inbox_Cons:
  "inbox b l (e # es) idx = (b ! e \<le> idx ! e \<and> idx ! e < l ! e \<and> inbox b l es idx)"
  by (auto simp: inbox_def)

lemma pos_update: "e \<notin> set es \<Longrightarrow> pos b l es (idx[e := v]) = pos b l es idx"
  by (induction es) auto

lemma inbox_update: "e \<notin> set es \<Longrightarrow> inbox b l es (idx[e := v]) = inbox b l es idx"
proof -
  assume "e \<notin> set es"
  then have "\<forall>d \<in> set es. idx[e := v] ! d = idx ! d"
    by (metis nth_list_update_neq)
  then show ?thesis by (simp add: inbox_def)
qed

lemma pos_bound: "inbox b l es idx \<Longrightarrow> pos b l es idx < cnt b l es"
proof (induction es)
  case Nil
  then show ?case by simp
next
  case (Cons e es)
  let ?x = "idx ! e - b ! e" and ?len = "l ! e - b ! e"
  have x: "?x < ?len" using Cons.prems by (auto simp: inbox_Cons)
  have "pos b l es idx < cnt b l es" using Cons by (simp add: inbox_Cons)
  then have "Suc (pos b l es idx) \<le> cnt b l es" by simp
  then have "?len * Suc (pos b l es idx) \<le> ?len * cnt b l es" by (rule mult_le_mono2)
  moreover have "?x + ?len * pos b l es idx < ?len * Suc (pos b l es idx)" using x by simp
  ultimately show ?case by simp
qed

lemma length_adv [simp]: "length (fst (adv b l es idx)) = length idx"
  by (induction es arbitrary: idx) auto

lemma adv_frame: "d \<notin> set es \<Longrightarrow> fst (adv b l es idx) ! d = idx ! d"
  by (induction es arbitrary: idx) auto

lemma adv_spec:
  assumes "distinct es" "inbox b l es idx" "\<forall>e \<in> set es. e < length idx"
  shows "(if pos b l es idx + 1 < cnt b l es
          then \<not> snd (adv b l es idx) \<and> inbox b l es (fst (adv b l es idx))
               \<and> pos b l es (fst (adv b l es idx)) = pos b l es idx + 1
          else snd (adv b l es idx))"
  using assms
proof (induction es arbitrary: idx)
  case Nil
  then show ?case by simp
next
  case (Cons e es)
  let ?x = "idx ! e - b ! e" and ?len = "l ! e - b ! e"
  let ?p = "pos b l es idx" and ?c = "cnt b l es"
  have e: "e \<notin> set es" "distinct es" "e < length idx" using Cons.prems by auto
  have box: "b ! e \<le> idx ! e" "idx ! e < l ! e" "inbox b l es idx"
    using Cons.prems(2) by (auto simp: inbox_Cons)
  have pc: "?p < ?c" using box(3) by (rule pos_bound)
  show ?case
  proof (cases "idx ! e + 1 < l ! e")
    case True
    have "?x + 1 + ?len * ?p < ?len * ?c"
    proof -
      have "Suc ?p \<le> ?c" using pc by simp
      then have "?len * Suc ?p \<le> ?len * ?c" by (rule mult_le_mono2)
      moreover have "?x + 1 + ?len * ?p < ?len * Suc ?p" using True box by simp
      ultimately show ?thesis by simp
    qed
    moreover have "inbox b l (e # es) (idx[e := idx ! e + 1])"
      using True box e by (simp add: inbox_Cons inbox_update)
    moreover have "pos b l (e # es) (idx[e := idx ! e + 1]) = pos b l (e # es) idx + 1"
      using box e by (simp add: pos_update)
    ultimately show ?thesis using True by simp
  next
    case False
    then have top: "idx ! e + 1 = l ! e" using box by simp
    let ?idx = "idx[e := b ! e]"
    have x: "?x + 1 = ?len" using top box by simp
    have box': "inbox b l es ?idx" using box e by (simp add: inbox_update)
    have p': "pos b l es ?idx = ?p" using e by (simp add: pos_update)
    have IH: "if ?p + 1 < ?c
          then \<not> snd (adv b l es ?idx) \<and> inbox b l es (fst (adv b l es ?idx))
               \<and> pos b l es (fst (adv b l es ?idx)) = ?p + 1
          else snd (adv b l es ?idx)"
      using Cons.IH [OF e(2) box'] Cons.prems(3) by (simp add: p')
    have adv: "adv b l (e # es) idx = adv b l es ?idx" using False by simp
    have total: "pos b l (e # es) idx + 1 = ?len * (?p + 1)" using x by simp
    have len: "0 < ?len" using box by simp
    have c: "cnt b l (e # es) = ?len * ?c" by simp
    show ?thesis
    proof (cases "?p + 1 < ?c")
      case True
      let ?r = "fst (adv b l es ?idx)"
      have r: "\<not> snd (adv b l es ?idx)" "inbox b l es ?r" "pos b l es ?r = ?p + 1"
        using IH True by simp_all
      have re: "?r ! e = b ! e" using e by (simp add: adv_frame)
      have A: "pos b l (e # es) idx + 1 < cnt b l (e # es)"
        unfolding total c by (rule mult_less_mono2 [OF True len])
      have B: "pos b l (e # es) ?r = pos b l (e # es) idx + 1"
        unfolding total using r(3) re by simp
      have C: "inbox b l (e # es) ?r" using r(2) re box by (simp add: inbox_Cons)
      show ?thesis unfolding adv using A B C r(1) by (simp only: if_True simp_thms)
    next
      case False
      then have "?c \<le> ?p + 1" by simp
      then have "?len * ?c \<le> ?len * (?p + 1)" by (rule mult_le_mono2)
      then have "\<not> ?len * (?p + 1) < ?len * ?c" by (simp only: not_less)
      then have A: "\<not> pos b l (e # es) idx + 1 < cnt b l (e # es)"
        unfolding total c .
      have "snd (adv b l es ?idx)" using IH False by simp
      then show ?thesis unfolding adv using A by (simp only: if_False simp_thms)
    qed
  qed
qed

lemma pos_inj:
  "inbox b l es idx \<Longrightarrow> inbox b l es idx' \<Longrightarrow> pos b l es idx = pos b l es idx' \<Longrightarrow>
   \<forall>e \<in> set es. idx ! e = idx' ! e"
proof (induction es)
  case Nil
  then show ?case by simp
next
  case (Cons e es)
  let ?len = "l ! e - b ! e"
  let ?x = "idx ! e - b ! e" and ?x' = "idx' ! e - b ! e"
  have box: "b ! e \<le> idx ! e" "idx ! e < l ! e" "inbox b l es idx"
      "b ! e \<le> idx' ! e" "idx' ! e < l ! e" "inbox b l es idx'"
    using Cons.prems(1,2) by (auto simp: inbox_Cons)
  have x: "?x < ?len" "?x' < ?len" using box by simp_all
  have eq: "?x + ?len * pos b l es idx = ?x' + ?len * pos b l es idx'"
    using Cons.prems(3) by simp
  have "(?x + ?len * pos b l es idx) mod ?len = ?x" using x by simp
  moreover have "(?x' + ?len * pos b l es idx') mod ?len = ?x'" using x by simp
  ultimately have xx: "?x = ?x'" using eq by simp
  then have "?len * pos b l es idx = ?len * pos b l es idx'" using eq by simp
  moreover have "0 < ?len" using x by simp
  ultimately have "pos b l es idx = pos b l es idx'" by simp
  from Cons.IH [OF box(3,6) this] xx box show ?case by auto
qed

lemma advance_adv:
  assumes "n \<le> length indices" "length iter_dims = length indices"
    and "\<forall>e \<in> set (drop n iter_dims).
           e < length indices \<and> e < length (limit part) \<and> e < length (base part)"
  shows "\<exists>n'. advance iter_dims part indices n =
            Inr (fst (adv (base part) (limit part) (drop n iter_dims) indices), n')
          \<and> (n' < length indices) = (\<not> snd (adv (base part) (limit part) (drop n iter_dims) indices))"
  using assms
proof (induction iter_dims part indices n rule: advance.induct)
  case (1 iter_dims part indices n)
  show ?case
  proof (cases "n < length indices")
    case False
    then have "drop n iter_dims = []" using "1.prems" by simp
    then show ?thesis using False by (subst advance.simps) simp
  next
    case True
    let ?dim = "iter_dims ! n"
    have dr: "drop n iter_dims = ?dim # drop (Suc n) iter_dims"
      using True "1.prems"(2) by (simp add: Cons_nth_drop_Suc)
    have dim: "?dim < length indices" "?dim < length (limit part)" "?dim < length (base part)"
      using "1.prems"(3) unfolding dr by simp_all
    let ?i' = "indices[?dim := indices ! ?dim + 1]"
    show ?thesis
    proof (cases "indices ! ?dim + 1 < limit part ! ?dim")
      case lt: True
      show ?thesis
        unfolding dr using True "1.prems"(2) dim lt
        by (subst advance.simps) (simp add: Let_def)
    next
      case ge: False
      have rec: "advance iter_dims part indices n =
          advance iter_dims part (?i'[?dim := base part ! ?dim]) (n + 1)"
        using True "1.prems"(2) dim ge by (subst advance.simps) (simp add: Let_def)
      have "\<exists>n'. advance iter_dims part (?i'[?dim := base part ! ?dim]) (n + 1) =
            Inr (fst (adv (base part) (limit part) (drop (n + 1) iter_dims) (?i'[?dim := base part ! ?dim])), n')
          \<and> (n' < length (?i'[?dim := base part ! ?dim])) =
              (\<not> snd (adv (base part) (limit part) (drop (n + 1) iter_dims) (?i'[?dim := base part ! ?dim])))"
      proof (rule "1.IH")
        show "n < length indices" by (rule True)
        show "n < length iter_dims \<and> ?dim < length indices \<and> ?dim < length (limit part)"
          using True "1.prems"(2) dim by simp
        show "?dim = iter_dims ! n" by simp
        show "?i' = indices[?dim := indices ! ?dim + 1]" by simp
        show "\<not> ?i' ! ?dim < limit part ! ?dim" using ge dim by simp
        show "?dim < length (base part)" using dim by simp
        show "n + 1 \<le> length (?i'[?dim := base part ! ?dim])" using True by simp
        show "length iter_dims = length (?i'[?dim := base part ! ?dim])" using "1.prems"(2) by simp
        show "\<forall>e \<in> set (drop (n + 1) iter_dims).
           e < length (?i'[?dim := base part ! ?dim]) \<and> e < length (limit part) \<and> e < length (base part)"
          using "1.prems"(3) unfolding dr by simp
      qed
      then show ?thesis
        unfolding rec dr using ge by simp
    qed
  qed
qed

lemma GetFlatTensorOffset_flat:
  "length indices \<le> length strides \<Longrightarrow> GetFlatTensorOffset strides indices = Inr (flat strides indices)"
  by (simp add: GetFlatTensorOffset_def flat_def)

lemma SlicedCopy_loop_step:
  assumes "iter_dims = inner # es" "length iter_dims = length idx"
    and "\<forall>e \<in> set es. e < length idx"
    and "length (base part) = length idx" "length (limit part) = length idx"
    and "length idx \<le> length src_strides" "length idx \<le> length dest_strides"
    and "inner < length dims"
  shows "SlicedCopy_loop conv S D dims src_data src_strides dest_strides iter_dims part
           inner_src_stride inner_dest_stride idx dest_data =
     (case exec_accesses (Caster_cast conv S D) src_data
             (row_accesses (flat src_strides idx) inner_src_stride
                (flat dest_strides idx) inner_dest_stride (dims ! inner)) dest_data of
        Inl e \<Rightarrow> Some (Inl e)
      | Inr dest_data' \<Rightarrow>
          if \<not> snd (adv (base part) (limit part) es idx)
          then SlicedCopy_loop conv S D dims src_data src_strides dest_strides iter_dims part
                 inner_src_stride inner_dest_stride
                 (fst (adv (base part) (limit part) es idx)) dest_data'
          else Some (Inr dest_data'))"
proof -
  have "Suc 0 \<le> length idx" using assms(1,2) by auto
  moreover have "\<forall>e \<in> set (drop (Suc 0) iter_dims).
           e < length idx \<and> e < length (limit part) \<and> e < length (base part)"
    using assms(1,3,4,5) by simp
  ultimately obtain n' where "advance iter_dims part idx (Suc 0) =
            Inr (fst (adv (base part) (limit part) (drop (Suc 0) iter_dims) idx), n')"
      "(n' < length idx) = (\<not> snd (adv (base part) (limit part) (drop (Suc 0) iter_dims) idx))"
    using advance_adv [of "Suc 0" idx iter_dims part] assms(2) by blast
  moreover have "drop (Suc 0) iter_dims = es" using assms(1) by simp
  ultimately have n': "advance iter_dims part idx (Suc 0) =
            Inr (fst (adv (base part) (limit part) es idx), n')"
      "(n' < length idx) = (\<not> snd (adv (base part) (limit part) es idx))"
    by simp_all
  have hd: "hd iter_dims = inner" using assms(1) by simp
  show ?thesis
    by (subst SlicedCopy_loop.simps)
       (simp add: GetFlatTensorOffset_flat assms(6,7,8) hd
          StridedCopy_accesses n' del: advance.simps split: sum.splits)
qed

lemma rows_Cons:
  "rows ss ds iss ids n (v # vs) =
     row_accesses (flat ss v) iss (flat ds v) ids n @ rows ss ds iss ids n vs"
  by (simp add: rows_def)

lemma SlicedCopy_loop_visit:
  assumes "iter_dims = inner # es" "distinct es" "length iter_dims = length idx"
    and "\<forall>e \<in> set es. e < length idx"
    and "length (base part) = length idx" "length (limit part) = length idx"
    and "length idx \<le> length src_strides" "length idx \<le> length dest_strides"
    and "inner < length dims"
    and "inbox (base part) (limit part) es idx"
    and "k = cnt (base part) (limit part) es - pos (base part) (limit part) es idx"
  shows "SlicedCopy_loop conv S D dims src_data src_strides dest_strides iter_dims part
           inner_src_stride inner_dest_stride idx dest_data =
     Some (exec_accesses (Caster_cast conv S D) src_data
       (rows src_strides dest_strides inner_src_stride inner_dest_stride (dims ! inner)
          (visit (base part) (limit part) es k idx)) dest_data)"
  using assms(3-)
proof (induction k arbitrary: idx dest_data)
  case 0
  then show ?case using pos_bound [of "base part" "limit part" es idx] by simp
next
  case (Suc k)
  let ?b = "base part" and ?l = "limit part"
  let ?idx' = "fst (adv ?b ?l es idx)"
  let ?row = "row_accesses (flat src_strides idx) inner_src_stride
                (flat dest_strides idx) inner_dest_stride (dims ! inner)"
  note step = SlicedCopy_loop_step [OF assms(1) Suc.prems(1-7), of conv S D src_data
      inner_src_stride inner_dest_stride dest_data]
  note spec = adv_spec [OF assms(2) Suc.prems(8,2)]
  show ?case
  proof (cases "pos ?b ?l es idx + 1 < cnt ?b ?l es")
    case True
    then have a: "\<not> snd (adv ?b ?l es idx)" "inbox ?b ?l es ?idx'"
        "pos ?b ?l es ?idx' = pos ?b ?l es idx + 1"
      using spec by simp_all
    have k: "k = cnt ?b ?l es - pos ?b ?l es ?idx'" using Suc.prems(9) a(3) by simp
    have IH: "SlicedCopy_loop conv S D dims src_data src_strides dest_strides iter_dims part
           inner_src_stride inner_dest_stride ?idx' d' =
       Some (exec_accesses (Caster_cast conv S D) src_data
         (rows src_strides dest_strides inner_src_stride inner_dest_stride (dims ! inner)
            (visit ?b ?l es k ?idx')) d')" for d'
      using Suc.prems(1-7) a(2) k by (intro Suc.IH) simp_all
    show ?thesis
      unfolding step visit.simps rows_Cons exec_accesses_append
      using a(1) by (simp add: IH split: sum.splits)
  next
    case False
    then have a: "snd (adv ?b ?l es idx)" using spec by simp
    have "pos ?b ?l es idx < cnt ?b ?l es" using Suc.prems(8) by (rule pos_bound)
    with False Suc.prems(9) have k: "k = 0" by simp
    show ?thesis
      unfolding step k visit.simps rows_Cons exec_accesses_append
      using a by (simp add: rows_def split: sum.splits)
  qed
qed

lemma fold_add_sum_list: "fold (\<lambda>i base. base + f i) xs (a::nat) = a + sum_list (map f xs)"
  by (induction xs arbitrary: a) auto

lemma flat_sum: "flat strides indices = (\<Sum>i = 0..<length indices. indices ! i * strides ! i)"
  by (simp add: flat_def fold_add_sum_list interv_sum_list_conv_sum_set_nat)

lemma flat_update:
  assumes "inner < length v" "v ! inner = 0"
  shows "flat strides (v[inner := k]) = flat strides v + k * strides ! inner"
proof -
  let ?I = "{0..<length v}"
  have fin: "finite ?I" "inner \<in> ?I" using assms(1) by simp_all
  have "(\<Sum>i \<in> ?I. v[inner := k] ! i * strides ! i) =
      k * strides ! inner + (\<Sum>i \<in> ?I - {inner}. v[inner := k] ! i * strides ! i)"
    using assms(1) by (subst sum.remove [OF fin]) simp
  moreover have "(\<Sum>i \<in> ?I. v ! i * strides ! i) =
      0 + (\<Sum>i \<in> ?I - {inner}. v ! i * strides ! i)"
    using assms(2) by (subst sum.remove [OF fin]) simp
  moreover have "(\<Sum>i \<in> ?I - {inner}. v[inner := k] ! i * strides ! i) =
      (\<Sum>i \<in> ?I - {inner}. v ! i * strides ! i)"
    by (rule sum.cong) auto
  ultimately show ?thesis by (simp add: flat_sum)
qed

lemma pos_start: "pos b l es b = 0"
  by (induction es) auto

lemma visit_props:
  assumes "distinct es"
  shows "inbox b l es idx \<Longrightarrow> \<forall>e \<in> set es. e < length idx \<Longrightarrow>
     k \<le> cnt b l es - pos b l es idx \<Longrightarrow>
     (\<forall>v \<in> set (visit b l es k idx).
         inbox b l es v \<and> length v = length idx \<and> (\<forall>d. d \<notin> set es \<longrightarrow> v ! d = idx ! d))
     \<and> (\<forall>q. pos b l es idx \<le> q \<and> q < pos b l es idx + k \<longrightarrow>
           (\<exists>v \<in> set (visit b l es k idx). pos b l es v = q))"
proof (induction k arbitrary: idx)
  case 0
  then show ?case by simp
next
  case (Suc k)
  let ?idx' = "fst (adv b l es idx)"
  show ?case
  proof (cases k)
    case 0
    then show ?thesis using Suc.prems(1) by (auto simp: le_less_Suc_eq)
  next
    case (Suc k')
    then have "pos b l es idx + 1 < cnt b l es" using Suc.prems(3) by simp
    with adv_spec [OF assms Suc.prems(1,2)]
    have a: "inbox b l es ?idx'" "pos b l es ?idx' = pos b l es idx + 1" by simp_all
    have "k \<le> cnt b l es - pos b l es ?idx'" using Suc.prems(3) a(2) by simp
    from Suc.IH [OF a(1) _ this] Suc.prems(2)
    have IH: "\<forall>v \<in> set (visit b l es k ?idx').
         inbox b l es v \<and> length v = length idx \<and> (\<forall>d. d \<notin> set es \<longrightarrow> v ! d = ?idx' ! d)"
      "\<forall>q. pos b l es idx + 1 \<le> q \<and> q < pos b l es idx + 1 + k \<longrightarrow>
           (\<exists>v \<in> set (visit b l es k ?idx'). pos b l es v = q)"
      by (simp_all add: a(2))
    have "\<exists>v \<in> set (visit b l es (Suc k) idx). pos b l es v = q"
      if "pos b l es idx \<le> q \<and> q < pos b l es idx + Suc k" for q
    proof (cases "q = pos b l es idx")
      case True
      then show ?thesis by simp
    next
      case False
      then have "pos b l es idx + 1 \<le> q \<and> q < pos b l es idx + 1 + k" using that by simp
      with IH(2) show ?thesis by auto
    qed
    then show ?thesis using IH(1) Suc.prems(1) by (auto simp: adv_frame)
  qed
qed

lemma visit_set:
  assumes "distinct (inner # es)" "set (inner # es) = {0..<length b}"
    and "\<forall>e \<in> set es. b ! e < l ! e"
  shows "set (visit b l es (cnt b l es) b) =
     {v. length v = length b \<and> inbox b l es v \<and> v ! inner = b ! inner}"
proof -
  have es: "distinct es" "inner \<notin> set es" "\<forall>e \<in> set es. e < length b" "inner < length b"
    using assms(1,2) by auto
  have box: "inbox b l es b" using assms(3) by (simp add: inbox_def)
  have k: "cnt b l es \<le> cnt b l es - pos b l es b" by (simp add: pos_start)
  note vp = visit_props [OF es(1) box es(3) k, unfolded pos_start]
  show ?thesis
  proof (intro equalityI subsetI)
    fix v assume "v \<in> set (visit b l es (cnt b l es) b)"
    then show "v \<in> {v. length v = length b \<and> inbox b l es v \<and> v ! inner = b ! inner}"
      using vp es(2) by auto
  next
    fix J assume "J \<in> {v. length v = length b \<and> inbox b l es v \<and> v ! inner = b ! inner}"
    then have J: "length J = length b" "inbox b l es J" "J ! inner = b ! inner" by auto
    have "pos b l es J < cnt b l es" using J(2) by (rule pos_bound)
    with vp obtain v where v: "v \<in> set (visit b l es (cnt b l es) b)" "pos b l es v = pos b l es J"
      by auto
    have vv: "inbox b l es v" "length v = length b" "v ! inner = b ! inner"
      using vp v(1) es(2) by auto
    have eq: "\<forall>e \<in> set es. v ! e = J ! e" using pos_inj [OF vv(1) J(2) v(2)] .
    have "v = J"
    proof (rule nth_equalityI)
      show "length v = length J" using vv(2) J(1) by simp
      fix i assume "i < length v"
      then have "i \<in> set (inner # es)" using assms(2) vv(2) by simp
      then show "v ! i = J ! i" using eq vv(3) J(3) by auto
    qed
    with v(1) show "J \<in> set (visit b l es (cnt b l es) b)" by simp
  qed
qed

lemma set_row_accesses:
  assumes "inner < length v" "v ! inner = 0"
  shows "set (row_accesses (flat ss v) (ss ! inner) (flat ds v) (ds ! inner) n) =
     (\<lambda>k. (flat ss (v[inner := k]), flat ds (v[inner := k])))
       ` {0..<(if ss ! inner = 0 then 0 else n)}"
  by (simp add: row_accesses_def flat_update [OF assms] image_def)

lemma set_rows_visit:
  assumes "distinct (inner # es)" "set (inner # es) = {0..<length b}"
    and "\<forall>e \<in> set es. b ! e < l ! e" "b ! inner = 0"
  shows "set (rows ss ds (ss ! inner) (ds ! inner) n (visit b l es (cnt b l es) b)) =
     (\<lambda>J. (flat ss J, flat ds J))
       ` part_box b l es inner (if ss ! inner = 0 then 0 else n)"
    (is "?L = ?f ` part_box b l es inner ?n")
proof -
  have inner: "inner < length b" "inner \<notin> set es" using assms(1,2) by auto
  note vs = visit_set [OF assms(1,2,3), unfolded assms(4)]
  have L: "?L = (\<Union>v \<in> {v. length v = length b \<and> inbox b l es v \<and> v ! inner = 0}.
      (\<lambda>k. ?f (v[inner := k])) ` {0..<?n})"
  proof -
    have "set (row_accesses (flat ss v) (ss ! inner) (flat ds v) (ds ! inner) n) =
        (\<lambda>k. ?f (v[inner := k])) ` {0..<?n}"
      if "v \<in> {v. length v = length b \<and> inbox b l es v \<and> v ! inner = 0}" for v
      using that inner by (intro set_row_accesses) simp_all
    then show ?thesis
      unfolding rows_def set_concat set_map vs image_image by (rule SUP_cong [OF refl])
  qed
  show ?thesis
  proof (intro equalityI subsetI)
    fix x assume "x \<in> ?L"
    then obtain v k where v: "length v = length b" "inbox b l es v" "v ! inner = 0"
      and k: "k < ?n" and x: "x = ?f (v[inner := k])"
      unfolding L by auto
    have "v[inner := k] \<in> part_box b l es inner ?n"
      using v k inner by (simp add: part_box_def inbox_update)
    then show "x \<in> ?f ` part_box b l es inner ?n" unfolding x by (rule imageI)
  next
    fix x assume "x \<in> ?f ` part_box b l es inner ?n"
    then obtain J where J: "length J = length b" "inbox b l es J" "J ! inner < ?n"
      and x: "x = ?f J"
      by (auto simp: part_box_def)
    let ?v = "J[inner := 0]"
    have v: "?v \<in> {v. length v = length b \<and> inbox b l es v \<and> v ! inner = 0}"
      using J inner by (simp add: inbox_update)
    have "?v[inner := J ! inner] = J" by simp
    then have "?f J = (\<lambda>k. ?f (?v[inner := k])) (J ! inner)" by simp
    moreover have "J ! inner \<in> {0..<?n}" using J(3) by simp
    ultimately have "?f J \<in> (\<lambda>k. ?f (?v[inner := k])) ` {0..<?n}" by (rule image_eqI)
    with v show "x \<in> ?L" unfolding L x by blast
  qed
qed

lemma SlicedCopy_accesses:
  assumes "iter_dims = inner # es" "distinct (inner # es)"
    and "set (inner # es) = {0..<length (base part)}"
    and "length (limit part) = length (base part)"
    and "length src_strides = length (base part)" "length dest_strides = length (base part)"
    and "length dims = length (base part)"
    and "\<forall>e \<in> set es. base part ! e < limit part ! e"
  shows "SlicedCopy conv S D dims src_data src_strides dest_data dest_strides iter_dims part =
     Some (exec_accesses (Caster_cast conv S D) src_data
       (rows src_strides dest_strides (src_strides ! inner) (dest_strides ! inner) (dims ! inner)
          (visit (base part) (limit part) es (cnt (base part) (limit part) es) (base part)))
       dest_data)"
proof -
  let ?b = "base part" and ?l = "limit part"
  have inner: "inner < length ?b" "\<forall>e \<in> set es. e < length ?b" "distinct es"
    and len: "length iter_dims = length ?b"
    using assms(1,2,3) by (auto simp: assms(1) dest: arg_cong [where f = card] simp: distinct_card)
  have box: "inbox ?b ?l es ?b" using assms(8) by (simp add: inbox_def)
  have k: "cnt ?b ?l es = cnt ?b ?l es - pos ?b ?l es ?b" by (simp add: pos_start)
  have loop: "SlicedCopy_loop conv S D dims src_data src_strides dest_strides iter_dims part
           (src_strides ! inner) (dest_strides ! inner) ?b dest_data =
     Some (exec_accesses (Caster_cast conv S D) src_data
       (rows src_strides dest_strides (src_strides ! inner) (dest_strides ! inner) (dims ! inner)
          (visit ?b ?l es (cnt ?b ?l es) ?b)) dest_data)"
    using assms(4,5,6,7) inner len box k
    by (intro SlicedCopy_loop_visit [OF assms(1)]) simp_all
  have "base part \<noteq> []" using inner(1) by auto
  then show ?thesis
    using inner(1) loop by (simp add: SlicedCopy_def Let_def assms(1,5,6))
qed

lemma run_parts_accesses:
  assumes "\<forall>p \<in> set parts. \<forall>d. copy_fn p d = Some (exec_accesses cast source (A p) d)"
  shows "run_parts copy_fn parts dest = Some (exec_accesses cast source (concat (map A parts)) dest)"
  using assms
proof (induction parts arbitrary: dest)
  case Nil
  then show ?case by simp
next
  case (Cons p parts)
  then show ?case by (simp add: exec_accesses_append split: sum.splits)
qed

lemma mixed_radix_sum:
  "\<forall>e \<in> set es. e < r \<Longrightarrow>
   \<forall>k < length es. w (es ! k) = c * prod_list (map ((!) dims) (take k es)) \<Longrightarrow>
   sum_list (map (\<lambda>e. J ! e * w e) es) = c * pos (replicate r 0) dims es J"
proof (induction es arbitrary: c)
  case Nil
  then show ?case by simp
next
  case (Cons e es)
  have w0: "w e = c" using Cons.prems(2) [rule_format, of 0] by simp
  have "\<forall>k < length es. w (es ! k) = (c * dims ! e) * prod_list (map ((!) dims) (take k es))"
  proof (intro allI impI)
    fix k assume "k < length es"
    then show "w (es ! k) = (c * dims ! e) * prod_list (map ((!) dims) (take k es))"
      using Cons.prems(2) [rule_format, of "Suc k"] by (simp add: mult.assoc)
  qed
  from Cons.IH [OF _ this] Cons.prems(1)
  have "sum_list (map (\<lambda>e. J ! e * w e) es) = c * dims ! e * pos (replicate r 0) dims es J"
    by simp
  then show ?case using Cons.prems(1) w0 by (simp add: algebra_simps)
qed

lemma flat_pos:
  assumes "distinct md" "set md = {0..<length J}"
    and "\<forall>k < length md. strides ! (md ! k) = prod_list (map ((!) dims) (take k md))"
  shows "flat strides J = pos (replicate (length J) 0) dims md J"
proof -
  have "flat strides J = (\<Sum>i \<in> set md. J ! i * strides ! i)"
    by (simp add: flat_sum assms(2))
  also have "\<dots> = sum_list (map (\<lambda>e. J ! e * strides ! e) md)"
    using assms(1) by (simp add: sum_list_distinct_conv_sum_set)
  also have "\<dots> = 1 * pos (replicate (length J) 0) dims md J"
    using assms(2,3) by (intro mixed_radix_sum) auto
  finally show ?thesis by simp
qed

lemma flat_inj:
  assumes "distinct md" "set md = {0..<r}"
    and "\<forall>k < length md. strides ! (md ! k) = prod_list (map ((!) dims) (take k md))"
    and "length J = r" "length J' = r"
    and "\<forall>d < r. J ! d < dims ! d" "\<forall>d < r. J' ! d < dims ! d"
    and "flat strides J = flat strides J'"
  shows "J = J'"
proof -
  let ?z = "replicate r 0"
  have "inbox ?z dims md J" "inbox ?z dims md J'"
    using assms(2,6,7) by (auto simp: inbox_def)
  moreover have "pos ?z dims md J = pos ?z dims md J'"
    using flat_pos [OF assms(1) _ assms(3), of J] flat_pos [OF assms(1) _ assms(3), of J']
      assms(2,4,5,8) by simp
  ultimately have "\<forall>e \<in> set md. J ! e = J' ! e" by (rule pos_inj)
  then show ?thesis using assms(2,4,5) by (intro nth_equalityI) auto
qed

lemma tile_boxes:
  assumes "0 < ps" "m \<in> set es" "\<forall>e \<in> set es. e < length dims"
  shows "(\<Union>k \<in> {0..<(dims ! m + ps - 1) div ps}.
            part_box (base (tile dims m ps 0 k)) (limit (tile dims m ps 0 k)) es inner n) =
     {J. length J = length dims \<and> (\<forall>e \<in> set es. J ! e < dims ! e) \<and> J ! inner < n}"
    (is "?L = ?R")
proof -
  have m: "m < length dims" using assms(2,3) by simp
  have b: "base (tile dims m ps 0 k) ! e = (if e = m then k * ps else 0)"
    and l: "limit (tile dims m ps 0 k) ! e = (if e = m then min ((k + 1) * ps) (dims ! m) else dims ! e)"
    if "e < length dims" for e k
    using that m by (simp_all add: tile_def)
  have lenb: "length (base (tile dims m ps 0 k)) = length dims" for k
    by (simp add: tile_def)
  have box: "inbox (base (tile dims m ps 0 k)) (limit (tile dims m ps 0 k)) es J =
      ((\<forall>e \<in> set es. J ! e < dims ! e) \<and> k * ps \<le> J ! m \<and> J ! m < (k + 1) * ps)" for k J
    unfolding inbox_def using assms(2,3) by (auto simp: b l)
  show ?thesis
  proof (intro equalityI subsetI)
    fix J assume "J \<in> ?L"
    then show "J \<in> ?R" by (auto simp: part_box_def lenb box)
  next
    fix J assume "J \<in> ?R"
    then have J: "length J = length dims" "\<forall>e \<in> set es. J ! e < dims ! e" "J ! inner < n"
      by auto
    let ?k = "J ! m div ps"
    have le: "?k * ps \<le> J ! m" by simp
    have "J ! m < dims ! m" using J(2) assms(2) by simp
    with le have "?k * ps < dims ! m" by (rule le_less_trans)
    then have k: "?k < (dims ! m + ps - 1) div ps" by (simp only: tile_count [OF assms(1)])
    have "(?k + 1) * ps = ps + ?k * ps" by simp
    then have "J ! m < (?k + 1) * ps"
      using dividend_less_div_times [OF assms(1), of "J ! m"] by (simp only:)
    with le J have "J \<in> part_box (base (tile dims m ps 0 ?k)) (limit (tile dims m ps 0 ?k)) es inner n"
      by (simp add: part_box_def lenb box)
    with k show "J \<in> ?L" by auto
  qed
qed

lemma strides_loop_length:
  "strides_loop dims m strides stride = Inr r \<Longrightarrow> length r = length strides"
  by (induction m arbitrary: strides stride) (auto split: if_splits)

lemma GetIterationDimensions_swap:
  assumes "minor_to_major shape \<noteq> []"
    and "\<forall>d \<in> set (minor_to_major shape). d < rank shape"
  shows "\<exists>j < length (minor_to_major shape).
     GetIterationDimensions shape =
       Inr ((minor_to_major shape)[0 := minor_to_major shape ! j, j := minor_to_major shape ! 0])"
proof -
  obtain d0 rest where m: "minor_to_major shape = d0 # rest"
    using assms(1) by (cases "minor_to_major shape") auto
  have d0: "d0 < length (dimensions shape)" and rest: "\<forall>d \<in> set rest. d < length (dimensions shape)"
    using assms(2) by (auto simp: m rank_def)
  from iter_loop_inv [OF rest, of "[d0]" 0 "8 * dimensions shape ! d0"]
  obtain j where j: "iter_loop (dimensions shape) rest 1 0 (8 * dimensions shape ! d0) = Inr j"
    "j < length ([d0] @ rest)"
    by auto
  have "GetIterationDimensions shape =
       Inr ((minor_to_major shape)[0 := minor_to_major shape ! j, j := minor_to_major shape ! 0])"
    using j(1) d0 by (simp add: GetIterationDimensions_def m rank_def kMinorDimScale_def Let_def)
  then show ?thesis using j(2) by (auto simp: m)
qed

lemma run_tiles_accesses_any:
  assumes "distinct (inner # es)" "set (inner # es) = {0..<length dims}"
    and "\<forall>d \<in> set dims. 0 < d"
    and "length ss = length dims" "length ds = length dims"
    and "0 < ps" "m \<in> set es"
    and "set parts = tile dims m ps 0 ` {0..<(dims ! m + ps - 1) div ps}"
  shows "\<exists>A. run_parts
        (\<lambda>part dest_data. SlicedCopy conv S D dims src ss dest_data ds (inner # es) part)
        parts dest =
      Some (exec_accesses (Caster_cast conv S D) src A dest)
    \<and> set A = copy_set dims ss ds es inner"
proof -
  let ?N = "(dims ! m + ps - 1) div ps"
  let ?n = "if ss ! inner = 0 then 0 else dims ! inner"
  let ?A = "\<lambda>p. rows ss ds (ss ! inner) (ds ! inner) (dims ! inner)
               (visit (base p) (limit p) es (cnt (base p) (limit p) es) (base p))"
  have es: "\<forall>e \<in> set es. e < length dims" "inner \<notin> set es" "m < length dims" "m \<noteq> inner"
    using assms(1,2,7) by auto
  have pos: "\<forall>e \<in> set es. 0 < dims ! e" using assms(3) es(1) by simp
  have lenb: "length (base (tile dims m ps 0 k)) = length dims"
    and lenl: "length (limit (tile dims m ps 0 k)) = length dims" for k
    by (simp_all add: tile_def)
  have b: "base (tile dims m ps 0 k) ! e = (if e = m then k * ps else 0)"
    and l: "limit (tile dims m ps 0 k) ! e = (if e = m then min ((k + 1) * ps) (dims ! m) else dims ! e)"
    if "e < length dims" for e k
    using that es(3) by (simp_all add: tile_def)
  have lt: "\<forall>e \<in> set es. base (tile dims m ps 0 k) ! e < limit (tile dims m ps 0 k) ! e"
    if "k < ?N" for k
  proof
    fix e assume e: "e \<in> set es"
    have "k * ps < dims ! m" using that by (simp only: tile_count [OF assms(6)])
    then show "base (tile dims m ps 0 k) ! e < limit (tile dims m ps 0 k) ! e"
      using e es(1) pos assms(6) by (simp add: b l)
  qed
  have b0: "base (tile dims m ps 0 k) ! inner = 0" for k
    using es(4) assms(2) by (subst b) auto
  have part: "SlicedCopy conv S D dims src ss d ds (inner # es) (tile dims m ps 0 k) =
      Some (exec_accesses (Caster_cast conv S D) src (?A (tile dims m ps 0 k)) d)"
    if "k < ?N" for k d
    using assms(1,2,4,5) lt [OF that]
    by (intro SlicedCopy_accesses) (simp_all add: lenb lenl)
  have run: "run_parts
        (\<lambda>part dest_data. SlicedCopy conv S D dims src ss dest_data ds (inner # es) part)
        parts dest =
      Some (exec_accesses (Caster_cast conv S D) src (concat (map ?A parts)) dest)"
    by (rule run_parts_accesses) (auto simp: assms(8) part)
  have "set (?A (tile dims m ps 0 k)) =
      (\<lambda>J. (flat ss J, flat ds J)) `
        part_box (base (tile dims m ps 0 k)) (limit (tile dims m ps 0 k)) es inner ?n"
    if "k < ?N" for k
    using assms(1,2) lt [OF that] b0 by (intro set_rows_visit) (simp_all add: lenb)
  then have "set (concat (map ?A parts)) =
      (\<Union>k \<in> {0..<?N}. (\<lambda>J. (flat ss J, flat ds J)) `
        part_box (base (tile dims m ps 0 k)) (limit (tile dims m ps 0 k)) es inner ?n)"
    by (auto simp: assms(8))
  also have "\<dots> = (\<lambda>J. (flat ss J, flat ds J)) `
      (\<Union>k \<in> {0..<?N}.
        part_box (base (tile dims m ps 0 k)) (limit (tile dims m ps 0 k)) es inner ?n)"
    by blast
  also have "\<dots> = copy_set dims ss ds es inner"
    unfolding copy_set_def tile_boxes [OF assms(6,7) es(1)] ..
  finally show ?thesis using run by blast
qed

lemma copy_set_functional:
  assumes "distinct md" "set md = {0..<length dims}"
    and "\<forall>k < length md. ds ! (md ! k) = prod_list (map ((!) dims) (take k md))"
    and "set (inner # es) = {0..<length dims}"
  shows "\<forall>(s, d) \<in> copy_set dims ss ds es inner.
           \<forall>(s', d') \<in> copy_set dims ss ds es inner. d = d' \<longrightarrow> s = s'"
proof -
  have "J = J'"
    if J: "length J = length dims" "\<forall>e \<in> set es. J ! e < dims ! e"
        "J ! inner < (if ss ! inner = 0 then 0 else dims ! inner)"
      and J': "length J' = length dims" "\<forall>e \<in> set es. J' ! e < dims ! e"
        "J' ! inner < (if ss ! inner = 0 then 0 else dims ! inner)"
      and eq: "flat ds J = flat ds J'" for J J'
  proof (rule flat_inj [OF assms(1,2,3) J(1) J'(1) _ _ eq])
    have in1: "J ! inner < dims ! inner" "J' ! inner < dims ! inner"
      using J(3) J'(3) by (simp_all split: if_splits)
    show "\<forall>d < length dims. J ! d < dims ! d"
    proof (intro allI impI)
      fix d assume "d < length dims"
      then have "d \<in> set (inner # es)" using assms(4) by simp
      then show "J ! d < dims ! d" using J(2) in1 by auto
    qed
    show "\<forall>d < length dims. J' ! d < dims ! d"
    proof (intro allI impI)
      fix d assume "d < length dims"
      then have "d \<in> set (inner # es)" using assms(4) by simp
      then show "J' ! d < dims ! d" using J'(2) in1 by auto
    qed
  qed
  then show ?thesis unfolding copy_set_def by fast
qed

lemma prefix_prod_le:
  fixes dims :: "nat list"
  assumes "distinct md" "set md = {0..<length dims}" "\<forall>d \<in> set dims. 0 < d"
  shows "prod_list (map ((!) dims) (take k md)) \<le> prod_list dims"
proof -
  have "prod_list (map ((!) dims) md) = (\<Prod>i \<in> set md. dims ! i)"
    using assms(1) by (simp add: prod.distinct_set_conv_list)
  also have "\<dots> = prod_list (map ((!) dims) [0..<length dims])"
    using prod.distinct_set_conv_list [of "[0..<length dims]" "(!) dims"]
    by (simp add: assms(2))
  also have "\<dots> = prod_list dims" by (simp only: map_nth)
  finally have total: "prod_list (map ((!) dims) md) = prod_list dims" .
  have "\<forall>e \<in> set (drop k md). 0 < dims ! e"
  proof
    fix e assume "e \<in> set (drop k md)"
    then have "e \<in> set md" by (rule in_set_dropD)
    then have "e < length dims" using assms(2) by simp
    then show "0 < dims ! e" using assms(3) by simp
  qed
  then have "0 \<notin> set (map ((!) dims) (drop k md))" by auto
  then have "prod_list (map ((!) dims) (drop k md)) \<noteq> 0" by (simp only: prod_list_zero_iff) simp
  then have "1 \<le> prod_list (map ((!) dims) (drop k md))" by simp
  then have "prod_list (map ((!) dims) (take k md)) * 1
      \<le> prod_list (map ((!) dims) (take k md)) * prod_list (map ((!) dims) (drop k md))"
    by (rule mult_le_mono2)
  also have "\<dots> = prod_list (map ((!) dims) (take k md @ drop k md))"
    by (simp only: map_append prod_list.append)
  also have "\<dots> = prod_list dims" by (simp only: append_take_drop_id total)
  finally show ?thesis by simp
qed
lemma strided_setup:
  assumes "distinct (minor_to_major dest_shape)"
    and "set (minor_to_major dest_shape) = {0..<rank dest_shape}"
    and "dimensions src_shape = dimensions dest_shape"
    and "0 < prod_list (dimensions dest_shape)"
    and "prod_list (dimensions dest_shape) < 2 ^ 63"
    and "ComputeShapeStrides src_shape = Inr ss"
    and "ComputeShapeStrides dest_shape = Inr ds"
    and "GetIterationDimensions dest_shape = Inr iter_dims"
  obtains inner es where "iter_dims = inner # es" "distinct (inner # es)"
    "set (inner # es) = {0..<length (dimensions dest_shape)}"
    "\<forall>d \<in> set (dimensions dest_shape). 0 < d"
    "length (map unat ss) = length (dimensions dest_shape)"
    "length (map unat ds) = length (dimensions dest_shape)"
    "\<forall>k < length (minor_to_major dest_shape).
        map unat ds ! (minor_to_major dest_shape ! k) =
          prod_list (map ((!) (dimensions dest_shape)) (take k (minor_to_major dest_shape)))"
proof -
  let ?dims = "dimensions dest_shape" and ?md = "minor_to_major dest_shape"
  have r: "rank dest_shape = length ?dims" by (simp add: rank_def)
  have "prod_list ?dims \<noteq> 0" using assms(4) by simp
  then have "0 \<notin> set ?dims" by (simp add: prod_list_zero_iff)
  then have pos: "\<forall>d \<in> set ?dims. 0 < d" by (metis neq0_conv)
  have ne: "?md \<noteq> []" using assms(8) by (auto simp: GetIterationDimensions_def)
  have inr: "\<forall>d \<in> set ?md. d < rank dest_shape" using assms(2) by simp
  from GetIterationDimensions_swap [OF ne inr] assms(8)
  obtain j where j: "j < length ?md" "iter_dims = ?md[0 := ?md ! j, j := ?md ! 0]" by auto
  have z: "0 < length ?md" using ne by simp
  have it: "distinct iter_dims" "set iter_dims = {0..<length ?dims}"
    using assms(1,2) j z by (simp_all add: r distinct_swap)
  then have "iter_dims \<noteq> []" using z j(2) by auto
  then obtain inner es where ie: "iter_dims = inner # es" by (cases iter_dims) auto
  have set_ie: "set (inner # es) = {0..<length ?dims}" and dist_ie: "distinct (inner # es)"
    using it by (simp_all only: ie)
  have lss: "length (map unat ss) = length ?dims"
    using assms(6,3) strides_loop_length [of "dimensions src_shape" "minor_to_major src_shape"
        "replicate (rank src_shape) 0" 1 ss]
    by (simp add: ComputeShapeStrides_def rank_def)
  from strides_loop_closed [OF assms(1), of "replicate (rank dest_shape) 0" ?dims 1] assms(2,7)
  have ds: "length ds = length ?dims"
    "\<forall>k < length ?md. ds ! (?md ! k) = of_nat (prod_list (map ((!) ?dims) (take k ?md)))"
    by (auto simp: ComputeShapeStrides_def r)
  have lds: "length (map unat ds) = length ?dims" using ds(1) by simp
  have val: "\<forall>k < length ?md.
      map unat ds ! (?md ! k) = prod_list (map ((!) ?dims) (take k ?md))"
  proof (intro allI impI)
    fix k assume k: "k < length ?md"
    then have "?md ! k \<in> set ?md" by simp
    then have in_ds: "?md ! k < length ds" using assms(2) ds(1) by (simp add: r)
    have "prod_list (map ((!) ?dims) (take k ?md)) \<le> prod_list ?dims"
      by (rule prefix_prod_le [OF assms(1) assms(2) [unfolded r] pos])
    also have "\<dots> < 2 ^ 63" by (rule assms(5))
    also have "(2::nat) ^ 63 < 2 ^ 64" by simp
    finally have "unat (of_nat (prod_list (map ((!) ?dims) (take k ?md))) :: int64) =
        prod_list (map ((!) ?dims) (take k ?md))"
      by (rule unat_int64_of_nat)
    then show "map unat ds ! (?md ! k) = prod_list (map ((!) ?dims) (take k ?md))"
      using ds(2) k in_ds by simp
  qed
  show ?thesis using that [OF ie dist_ie set_ie pos lss lds val] .
qed

lemma CreateCopyPartitions_tiles:
  assumes "\<forall>d \<in> set dims. 0 < d"
    and "CreateCopyPartitions hc dims inner = Some (Inr parts)"
  obtains m ps where "find_max_dim dims inner = Some m" "0 < ps"
    "parts = map (tile dims m ps 0) [0..<(dims ! m + ps - 1) div ps]"
proof (cases "find_max_dim dims inner")
  case None
  then show ?thesis using assms(2) by (simp add: CreateCopyPartitions_def)
next
  case (Some m)
  let ?ps = "max (max (dims ! m div max (hc div 2) 1) 1)
             (kMinThreadElements div (prod_list dims div dims ! m))"
  have "0 < ?ps" by simp
  moreover have "parts = map (tile dims m ?ps 0) [0..<(dims ! m + ?ps - 1) div ?ps]"
    using CreateCopyPartitions_closed [OF assms(1) Some, of hc] assms(2) by simp
  ultimately show ?thesis using that [OF Some] by blast
qed

lemma strided_run:
  assumes "distinct (minor_to_major dest_shape)"
    and "set (minor_to_major dest_shape) = {0..<rank dest_shape}"
    and "dimensions src_shape = dimensions dest_shape"
    and "0 < prod_list (dimensions dest_shape)"
    and "prod_list (dimensions dest_shape) < 2 ^ 63"
    and "ComputeShapeStrides src_shape = Inr ss"
    and "ComputeShapeStrides dest_shape = Inr ds"
    and "GetIterationDimensions dest_shape = Inr iter_dims"
    and "CreateCopyPartitions hc (dimensions dest_shape) (hd iter_dims) = Some (Inr parts)"
    and "set parts' = set parts"
  shows "\<exists>A. run_parts (\<lambda>part dest_data.
             SlicedCopy conv S D (dimensions dest_shape) src (map unat ss) dest_data
               (map unat ds) iter_dims part)
           parts' dest = Some (exec_accesses (Caster_cast conv S D) src A dest)
       \<and> set A = copy_set (dimensions dest_shape) (map unat ss) (map unat ds) (tl iter_dims) (hd iter_dims)
       \<and> (\<forall>(s, d) \<in> set A. \<forall>(s', d') \<in> set A. d = d' \<longrightarrow> s = s')"
proof -
  let ?dims = "dimensions dest_shape"
  have r: "rank dest_shape = length ?dims" by (simp add: rank_def)
  from strided_setup [OF assms(1-8)] obtain inner es where
    s: "iter_dims = inner # es" "distinct (inner # es)"
      "set (inner # es) = {0..<length ?dims}" "\<forall>d \<in> set ?dims. 0 < d"
      "length (map unat ss) = length ?dims" "length (map unat ds) = length ?dims"
      "\<forall>k < length (minor_to_major dest_shape).
        map unat ds ! (minor_to_major dest_shape ! k) =
          prod_list (map ((!) ?dims) (take k (minor_to_major dest_shape)))"
    by blast
  from CreateCopyPartitions_tiles [OF s(4) assms(9) [unfolded s(1) list.sel]] obtain m ps where
    t: "find_max_dim ?dims inner = Some m" "0 < ps"
      "parts = map (tile ?dims m ps 0) [0..<(?dims ! m + ps - 1) div ps]"
    by blast
  have mm: "m < length ?dims" "m \<noteq> inner" using find_max_dim_Some [OF t(1)] by simp_all
  have "m \<in> set (inner # es)" unfolding s(3) using mm(1) by simp
  then have m: "m \<in> set es" using mm(2) by simp
  have sp: "set parts' = tile ?dims m ps 0 ` {0..<(?dims ! m + ps - 1) div ps}"
    unfolding assms(10) t(3) by simp
  from run_tiles_accesses_any [OF s(2,3,4,5,6) t(2) m sp, of conv S D src dest]
  obtain A where A: "run_parts
        (\<lambda>part dest_data. SlicedCopy conv S D ?dims src (map unat ss) dest_data
               (map unat ds) (inner # es) part)
        parts' dest = Some (exec_accesses (Caster_cast conv S D) src A dest)"
      "set A = copy_set ?dims (map unat ss) (map unat ds) es inner"
    by blast
  have "\<forall>(s, d) \<in> set A. \<forall>(s', d') \<in> set A. d = d' \<longrightarrow> s = s'"
    unfolding A(2)
    by (rule copy_set_functional [OF assms(1) assms(2) [unfolded r] s(7) s(3)])
  then show ?thesis using A unfolding s(1) list.sel by blast
qed

text \<open>
  The partitions may run in any order: running any list with the same partitions as the
  list of \<open>CreateCopyPartitions\<close> gives the result of running that list. So the order in
  which \<open>run_parts\<close> takes the closures of the thread pool does not matter.
\<close>

lemma partitions_order_irrelevant:
  assumes "distinct (minor_to_major dest_shape)"
    and "set (minor_to_major dest_shape) = {0..<rank dest_shape}"
    and "dimensions src_shape = dimensions dest_shape"
    and "0 < prod_list (dimensions dest_shape)"
    and "prod_list (dimensions dest_shape) < 2 ^ 63"
    and "ComputeShapeStrides src_shape = Inr ss"
    and "ComputeShapeStrides dest_shape = Inr ds"
    and "GetIterationDimensions dest_shape = Inr iter_dims"
    and "CreateCopyPartitions hc (dimensions dest_shape) (hd iter_dims) = Some (Inr parts)"
    and "set parts' = set parts"
  shows "run_parts (\<lambda>part dest_data.
             SlicedCopy conv S D (dimensions dest_shape) src (map unat ss) dest_data
               (map unat ds) iter_dims part)
           parts' dest =
         run_parts (\<lambda>part dest_data.
             SlicedCopy conv S D (dimensions dest_shape) src (map unat ss) dest_data
               (map unat ds) iter_dims part)
           parts dest"
proof -
  from strided_run [OF assms, of conv S D src dest] obtain A' where
    A': "run_parts (\<lambda>part dest_data.
             SlicedCopy conv S D (dimensions dest_shape) src (map unat ss) dest_data
               (map unat ds) iter_dims part)
           parts' dest = Some (exec_accesses (Caster_cast conv S D) src A' dest)"
      "set A' = copy_set (dimensions dest_shape) (map unat ss) (map unat ds) (tl iter_dims) (hd iter_dims)"
      "\<forall>(s, d) \<in> set A'. \<forall>(s', d') \<in> set A'. d = d' \<longrightarrow> s = s'"
    by blast
  from strided_run [OF assms(1-9) refl, of conv S D src dest] obtain A where
    A: "run_parts (\<lambda>part dest_data.
             SlicedCopy conv S D (dimensions dest_shape) src (map unat ss) dest_data
               (map unat ds) iter_dims part)
           parts dest = Some (exec_accesses (Caster_cast conv S D) src A dest)"
      "set A = copy_set (dimensions dest_shape) (map unat ss) (map unat ds) (tl iter_dims) (hd iter_dims)"
    by blast
  have "exec_accesses (Caster_cast conv S D) src A' dest =
      exec_accesses (Caster_cast conv S D) src A dest"
    using A'(2,3) A(2) by (intro exec_accesses_cong) simp_all
  then show ?thesis by (simp only: A'(1) A(1))
qed

lemma CopyData_returns: "\<exists>result. CopyData conv D S dest source n = Some result"
  by (simp add: CopyData_def StridedCopy_accesses)

lemma strided_copy_independent:
  assumes "distinct (minor_to_major dest_shape)"
    and "set (minor_to_major dest_shape) = {0..<rank dest_shape}"
    and "dimensions src_shape = dimensions dest_shape"
    and "0 < prod_list (dimensions dest_shape)"
    and "prod_list (dimensions dest_shape) < 2 ^ 63"
    and "ComputeShapeStrides src_shape = Inr ss"
    and "ComputeShapeStrides dest_shape = Inr ds"
    and "GetIterationDimensions dest_shape = Inr iter_dims"
  shows "\<exists>result.
         (case CreateCopyPartitions hc (dimensions dest_shape) (hd iter_dims) of
            None \<Rightarrow> None
          | Some (Inl e) \<Rightarrow> Some (Inl e)
          | Some (Inr parts) \<Rightarrow>
              run_parts (\<lambda>part dest_data.
                  SlicedCopy conv S D (dimensions dest_shape) src (map unat ss) dest_data
               (map unat ds) iter_dims part)
                parts dest) = Some result
       \<and> (case CreateCopyPartitions hc' (dimensions dest_shape) (hd iter_dims) of
            None \<Rightarrow> None
          | Some (Inl e) \<Rightarrow> Some (Inl e)
          | Some (Inr parts) \<Rightarrow>
              run_parts (\<lambda>part dest_data.
                  SlicedCopy conv S D (dimensions dest_shape) src (map unat ss) dest_data
               (map unat ds) iter_dims part)
                parts dest) = Some result"
proof -
  let ?dims = "dimensions dest_shape"
  from strided_setup [OF assms] have pos: "\<forall>d \<in> set ?dims. 0 < d" by blast
  show ?thesis
  proof (cases "find_max_dim ?dims (hd iter_dims)")
    case None
    then show ?thesis by (simp add: CreateCopyPartitions_def)
  next
    case (Some m)
    obtain parts where p: "CreateCopyPartitions hc ?dims (hd iter_dims) = Some (Inr parts)"
      using CreateCopyPartitions_closed [OF pos Some, of hc] by blast
    obtain parts' where p': "CreateCopyPartitions hc' ?dims (hd iter_dims) = Some (Inr parts')"
      using CreateCopyPartitions_closed [OF pos Some, of hc'] by blast
    from strided_run [OF assms p refl, of conv S D src dest] obtain A where
      A: "run_parts (\<lambda>part dest_data.
             SlicedCopy conv S D ?dims src (map unat ss) dest_data
               (map unat ds) iter_dims part)
           parts dest = Some (exec_accesses (Caster_cast conv S D) src A dest)"
        "set A = copy_set ?dims (map unat ss) (map unat ds) (tl iter_dims) (hd iter_dims)"
        "\<forall>(s, d) \<in> set A. \<forall>(s', d') \<in> set A. d = d' \<longrightarrow> s = s'"
      by blast
    from strided_run [OF assms p' refl, of conv S D src dest] obtain A' where
      A': "run_parts (\<lambda>part dest_data.
             SlicedCopy conv S D ?dims src (map unat ss) dest_data
               (map unat ds) iter_dims part)
           parts' dest = Some (exec_accesses (Caster_cast conv S D) src A' dest)"
        "set A' = copy_set ?dims (map unat ss) (map unat ds) (tl iter_dims) (hd iter_dims)"
      by blast
    have "exec_accesses (Caster_cast conv S D) src A dest =
        exec_accesses (Caster_cast conv S D) src A' dest"
      using A(2,3) A'(2) by (intro exec_accesses_cong) simp_all
    then show ?thesis unfolding p p' by (simp only: A(1) A'(1) option.case sum.case) simp
  qed
qed

lemma sizeof_pos: "0 < sizeof D"
  by (cases D) simp_all

text \<open>
  C7: for every source buffer and shape, destination buffer, destination buffer size below
  \<open>2\<^sup>6\<^sup>3\<close> bytes (the size of an object in memory is at most \<^verbatim>\<open>PTRDIFF_MAX\<close>) and
  destination shape whose minor-to-major list is a permutation of its dimensions,
  \<open>CopyTensors\<close> returns, and returns the same result (the same destination contents, or
  the same failure), for every two values of the hardware concurrency, that is for every
  two values of \<open>max_parts\<close>, hence also for one partition and for many.
\<close>

theorem C7_partition_independence:
  assumes "distinct (minor_to_major dest_shape)"
    and "set (minor_to_major dest_shape) = {0..<rank dest_shape}"
    and "dest_buffer_size < 2 ^ 63"
  shows "\<exists>result.
       CopyTensors conv hardware_concurrency S D src_buffer src_shape dest_buffer
           dest_buffer_size dest_shape = Some result
     \<and> CopyTensors conv hardware_concurrency' S D src_buffer src_shape dest_buffer
           dest_buffer_size dest_shape = Some result"
proof (cases "SameDimensions src_shape dest_shape \<and> 0 < ElementsIn src_shape
    \<and> dest_buffer_size = ElementsIn src_shape * sizeof D")
  case False
  then show ?thesis
    using CopyData_returns [of conv D S dest_buffer src_buffer "ElementsIn src_shape"]
    by (auto simp: CopyTensors_def Let_def)
next
  case True
  then have same: "dimensions src_shape = dimensions dest_shape"
    by (simp add: SameDimensions_def)
  have total: "0 < prod_list (dimensions dest_shape)"
    using True by (simp add: ElementsIn_def same)
  have "prod_list (dimensions dest_shape) * 1 \<le> prod_list (dimensions dest_shape) * sizeof D"
    using sizeof_pos [of D] by (intro mult_le_mono2) simp
  also have "\<dots> = dest_buffer_size" using True by (simp add: ElementsIn_def same)
  also have "\<dots> < 2 ^ 63" by (rule assms(3))
  finally have small: "prod_list (dimensions dest_shape) < 2 ^ 63" by simp
  note fast = CopyData_returns [of conv D S dest_buffer src_buffer "ElementsIn src_shape"]
  show ?thesis
  proof (cases "ComputeShapeStrides src_shape")
    case (Inl e)
    then show ?thesis using fast by (auto simp: CopyTensors_def Let_def)
  next
    case ss: (Inr ss)
    show ?thesis
    proof (cases "ComputeShapeStrides dest_shape")
      case (Inl e)
      then show ?thesis using fast by (auto simp: CopyTensors_def Let_def ss)
    next
      case ds: (Inr ds)
      show ?thesis
      proof (cases "GetIterationDimensions dest_shape")
        case (Inl e)
        then show ?thesis using fast by (auto simp: CopyTensors_def Let_def ss ds)
      next
        case it: (Inr iter_dims)
        show ?thesis
          using fast strided_copy_independent [OF assms(1,2) same total small ss ds it,
              where hc = hardware_concurrency and hc' = hardware_concurrency' and conv = conv
                and S = S and D = D and src = src_buffer and dest = dest_buffer]
          by (auto simp: CopyTensors_def Let_def ss ds it)
      qed
    qed
  qed
qed

lemma CopyTensors_column_major:
  "CopyTensors (\<lambda>S D v. v) 2 c_int32 c_int32 [1, 2, 3, 4, 5, 6::int] (MkShape S32 [2, 3] [1, 0] [])
       [0, 0, 0, 0, 0, 0] 24 (MkShape S32 [2, 3] [0, 1] []) = Some (Inr [1, 4, 2, 5, 3, 6])"
  by (simp add: CopyTensors_def SameDimensions_def ElementsIn_def ComputeShapeStrides_def rank_def
      GetIterationDimensions_def kMinorDimScale_def CreateCopyPartitions_def find_max_dim_def
      max_dim_step_def kMinThreadElements_def parts_loop.simps CopyPartition_init_def Let_def
      SlicedCopy_def SlicedCopy_loop.simps GetFlatTensorOffset_def StridedCopy_def
      StridedCopy_loop.simps advance.simps Caster_cast_def static_cast_def upt_rec)

lemma CreateCopyPartitions_four:
  "CreateCopyPartitions 8 [1000000, 8] 0 =
     Some (Inr [\<lparr>base = [0, 0], limit = [1000000, 2]\<rparr>, \<lparr>base = [0, 2], limit = [1000000, 4]\<rparr>,
                \<lparr>base = [0, 4], limit = [1000000, 6]\<rparr>, \<lparr>base = [0, 6], limit = [1000000, 8]\<rparr>])"
  by (simp add: CreateCopyPartitions_def find_max_dim_def max_dim_step_def kMinThreadElements_def
      parts_loop.simps CopyPartition_init_def Let_def)

lemma CreateCopyPartitions_one:
  "CreateCopyPartitions 2 [1000000, 8] 0 =
     Some (Inr [\<lparr>base = [0, 0], limit = [1000000, 8]\<rparr>])"
  by (simp add: CreateCopyPartitions_def find_max_dim_def max_dim_step_def kMinThreadElements_def
      parts_loop.simps CopyPartition_init_def Let_def)

lemma GetIterationDimensions_column_major:
  "GetIterationDimensions (MkShape S32 [1000000, 8] [0, 1] []) = Inr [0, 1]"
  by (simp add: GetIterationDimensions_def rank_def kMinorDimScale_def Let_def)

text \<open>
  What the strided copy writes: when every access of the copy is inside the buffers,
  \<open>CopyTensors\<close> returns a destination that holds, at the destination offset of every
  index vector, the converted source element at the source offset of that vector.
\<close>

lemma CopyTensors_strided_contents:
  assumes "distinct (minor_to_major dest_shape)"
    and "set (minor_to_major dest_shape) = {0..<rank dest_shape}"
    and "dest_buffer_size < 2 ^ 63"
    and "SameDimensions src_shape dest_shape" "0 < ElementsIn src_shape"
    and "dest_buffer_size = ElementsIn src_shape * sizeof D"
    and "minor_to_major src_shape \<noteq> minor_to_major dest_shape"
    and "ComputeShapeStrides src_shape = Inr ss"
    and "ComputeShapeStrides dest_shape = Inr ds"
    and "GetIterationDimensions dest_shape = Inr iter_dims"
    and "CreateCopyPartitions hc (dimensions dest_shape) (hd iter_dims) = Some (Inr parts)"
    and "in_range src_buffer dest_buffer
          (copy_set (dimensions dest_shape) (map unat ss) (map unat ds) (tl iter_dims) (hd iter_dims))"
  shows "\<exists>r. CopyTensors conv hc S D src_buffer src_shape dest_buffer dest_buffer_size dest_shape
          = Some (Inr r)
      \<and> length r = length dest_buffer
      \<and> (\<forall>(s, d) \<in> copy_set (dimensions dest_shape) (map unat ss) (map unat ds)
                       (tl iter_dims) (hd iter_dims).
            r ! d = Caster_cast conv S D (src_buffer ! s))"
proof -
  let ?W = "copy_set (dimensions dest_shape) (map unat ss) (map unat ds) (tl iter_dims) (hd iter_dims)"
  have same: "dimensions src_shape = dimensions dest_shape"
    using assms(4) by (simp add: SameDimensions_def)
  have total: "0 < prod_list (dimensions dest_shape)"
    using assms(5) by (simp add: ElementsIn_def same)
  have "prod_list (dimensions dest_shape) * 1 \<le> prod_list (dimensions dest_shape) * sizeof D"
    using sizeof_pos [of D] by (intro mult_le_mono2) simp
  also have "\<dots> = dest_buffer_size" using assms(6) by (simp add: ElementsIn_def same)
  also have "\<dots> < 2 ^ 63" by (rule assms(3))
  finally have small: "prod_list (dimensions dest_shape) < 2 ^ 63" by simp
  from strided_run [OF assms(1,2) same total small assms(8,9,10,11) refl,
      of conv S D src_buffer dest_buffer]
  obtain A where A: "run_parts (\<lambda>part dest_data.
             SlicedCopy conv S D (dimensions dest_shape) src_buffer (map unat ss) dest_data
               (map unat ds) iter_dims part)
           parts dest_buffer = Some (exec_accesses (Caster_cast conv S D) src_buffer A dest_buffer)"
      "set A = ?W"
      "\<forall>(s, d) \<in> set A. \<forall>(s', d') \<in> set A. d = d' \<longrightarrow> s = s'"
    by blast
  let ?r = "store (Caster_cast conv S D) src_buffer A dest_buffer"
  have run: "CopyTensors conv hc S D src_buffer src_shape dest_buffer dest_buffer_size dest_shape
      = Some (Inr ?r)"
    using assms(4,5,6,7,12)
    by (simp add: CopyTensors_def Let_def assms(8,9,10,11) A(1) exec_accesses_store A(2))
  have "?r ! d = Caster_cast conv S D (src_buffer ! s)" if "(s, d) \<in> ?W" for s d
  proof -
    have "(s, d) \<in> set A" using that by (simp only: A(2))
    moreover have "d < length dest_buffer" using assms(12) that by (auto simp: in_range_def)
    ultimately show ?thesis by (intro store_written [OF A(3)])
  qed
  then show ?thesis using run by auto
qed

lemma ComputeShapeStrides_row_major:
  "ComputeShapeStrides (MkShape S32 [1000000, 8] [1, 0] []) = Inr [8, 1]"
  by (simp add: ComputeShapeStrides_def rank_def)

lemma ComputeShapeStrides_column_major:
  "ComputeShapeStrides (MkShape S32 [1000000, 8] [0, 1] []) = Inr [1, 1000000]"
  by (simp add: ComputeShapeStrides_def rank_def)

lemma flat_two: "length J = 2 \<Longrightarrow> flat [a, b] J = J ! 0 * a + J ! 1 * b"
  by (simp add: flat_def upt_rec)

text \<open>
  A row-major buffer of \<open>1000000 \<times> 8\<close> elements copied to the column-major layout with
  hardware concurrency \<open>8\<close>, which splits dimension \<open>1\<close> into four partitions: element
  \<open>(i, j)\<close>, at offset \<open>8 i + j\<close> of the source, is at offset \<open>i + 1000000 j\<close> of the
  destination.
\<close>

lemma CopyTensors_transpose:
  "\<exists>r. CopyTensors (\<lambda>S D v. v) 8 c_int32 c_int32 (map int [0..<8000000])
            (MkShape S32 [1000000, 8] [1, 0] []) (replicate 8000000 0) 32000000
            (MkShape S32 [1000000, 8] [0, 1] []) = Some (Inr r)
     \<and> length r = 8000000
     \<and> r ! 0 = 0 \<and> r ! 2000010 = 82 \<and> r ! 5000003 = 29 \<and> r ! 7999999 = 7999999"
proof -
  let ?s = "MkShape S32 [1000000, 8] [1, 0] []" and ?d = "MkShape S32 [1000000, 8] [0, 1] []"
  let ?src = "map int [0..<8000000]" and ?dest = "replicate 8000000 (0::int)"
  let ?W = "copy_set [1000000, 8] [8, 1] [1, 1000000] [1] 0"
  have ls: "length ?src = 8000000" by (simp only: length_map length_upt diff_zero)
  have ld: "length ?dest = 8000000" by (simp only: length_replicate)
  have range: "in_range ?src ?dest ?W"
    unfolding in_range_def copy_set_def ls ld by (auto simp: flat_two)
  have W: "(J ! 0 * 8 + J ! 1, J ! 0 + J ! 1 * 1000000) \<in> ?W"
    if "length J = 2" "J ! 0 < 1000000" "J ! 1 < 8" for J
    unfolding copy_set_def using that by (auto simp: flat_two intro!: image_eqI [where x = J])
  have h: "distinct (minor_to_major ?d)" "set (minor_to_major ?d) = {0..<rank ?d}"
      "(32000000::nat) < 2 ^ 63" "SameDimensions ?s ?d" "0 < ElementsIn ?s"
      "(32000000::nat) = ElementsIn ?s * sizeof c_int32"
      "minor_to_major ?s \<noteq> minor_to_major ?d"
    by (auto simp: rank_def SameDimensions_def ElementsIn_def)
  have ss: "ComputeShapeStrides ?s = Inr [8, 1]" by (rule ComputeShapeStrides_row_major)
  have ds: "ComputeShapeStrides ?d = Inr [1, 1000000]" by (rule ComputeShapeStrides_column_major)
  have it: "GetIterationDimensions ?d = Inr [0, 1]" by (rule GetIterationDimensions_column_major)
  have parts: "CreateCopyPartitions 8 (dimensions ?d) (hd [0, 1]) =
     Some (Inr [\<lparr>base = [0, 0], limit = [1000000, 2]\<rparr>, \<lparr>base = [0, 2], limit = [1000000, 4]\<rparr>,
                \<lparr>base = [0, 4], limit = [1000000, 6]\<rparr>, \<lparr>base = [0, 6], limit = [1000000, 8]\<rparr>])"
    using CreateCopyPartitions_four by simp
  have range': "in_range ?src ?dest
      (copy_set (dimensions ?d) (map unat [8, 1 :: int64]) (map unat [1, 1000000 :: int64])
         (tl [0, 1]) (hd [0, 1]))"
    using range by simp
  from CopyTensors_strided_contents [OF h ss ds it parts range', of "\<lambda>S D v. v"]
  obtain r where r: "CopyTensors (\<lambda>S D v. v) 8 c_int32 c_int32 ?src ?s ?dest 32000000 ?d = Some (Inr r)"
      "length r = length ?dest"
      "\<forall>(s, d) \<in> copy_set (dimensions ?d) (map unat [8, 1 :: int64]) (map unat [1, 1000000 :: int64])
                       (tl [0, 1]) (hd [0, 1]).
            r ! d = Caster_cast (\<lambda>S D v. v) c_int32 c_int32 (?src ! s)"
    by blast
  have val: "r ! (J ! 0 + J ! 1 * 1000000) = int (J ! 0 * 8 + J ! 1)"
    if J: "length J = 2" "J ! 0 < 1000000" "J ! 1 < 8" for J
  proof -
    have "J ! 0 * 8 + J ! 1 < 8000000" using J by simp
    then have "?src ! (J ! 0 * 8 + J ! 1) = int (J ! 0 * 8 + J ! 1)"
      by (simp only: nth_map length_upt nth_upt)
    moreover have "(J ! 0 * 8 + J ! 1, J ! 0 + J ! 1 * 1000000) \<in>
        copy_set (dimensions ?d) (map unat [8, 1 :: int64]) (map unat [1, 1000000 :: int64])
           (tl [0, 1]) (hd [0, 1])"
      using W [OF J] by simp
    ultimately show ?thesis using r(3) by (auto simp: Caster_cast_def static_cast_def)
  qed
  have "r ! 0 = 0" using val [of "[0, 0]"] by simp
  moreover have "r ! 2000010 = 82" using val [of "[10, 2]"] by simp
  moreover have "r ! 5000003 = 29" using val [of "[3, 5]"] by simp
  moreover have "r ! 7999999 = 7999999" using val [of "[999999, 7]"] by simp
  ultimately show ?thesis using r(1,2) ld by (intro exI [of _ r] conjI) (simp_all only:)
qed

theorem C7_partition_independence_witness:
  "GetIterationDimensions (MkShape S32 [1000000, 8] [0, 1] []) = Inr [0, 1]
   \<and> CreateCopyPartitions 8 [1000000, 8] 0 =
     Some (Inr [\<lparr>base = [0, 0], limit = [1000000, 2]\<rparr>, \<lparr>base = [0, 2], limit = [1000000, 4]\<rparr>,
                \<lparr>base = [0, 4], limit = [1000000, 6]\<rparr>, \<lparr>base = [0, 6], limit = [1000000, 8]\<rparr>])
   \<and> CreateCopyPartitions 2 [1000000, 8] 0 =
     Some (Inr [\<lparr>base = [0, 0], limit = [1000000, 8]\<rparr>])
   \<and> (\<exists>r.
        CopyTensors (\<lambda>S D v. v) 8 c_int32 c_int32 (map int [0..<8000000])
            (MkShape S32 [1000000, 8] [1, 0] []) (replicate 8000000 0) 32000000
            (MkShape S32 [1000000, 8] [0, 1] []) = Some (Inr r)
      \<and> CopyTensors (\<lambda>S D v. v) 2 c_int32 c_int32 (map int [0..<8000000])
            (MkShape S32 [1000000, 8] [1, 0] []) (replicate 8000000 0) 32000000
            (MkShape S32 [1000000, 8] [0, 1] []) = Some (Inr r)
      \<and> length r = 8000000
      \<and> r ! 0 = 0 \<and> r ! 2000010 = 82 \<and> r ! 5000003 = 29 \<and> r ! 7999999 = 7999999)"
proof -
  let ?s = "MkShape S32 [1000000, 8] [1, 0] []" and ?d = "MkShape S32 [1000000, 8] [0, 1] []"
  let ?src = "map int [0..<8000000]" and ?dest = "replicate 8000000 (0::int)"
  have h: "distinct (minor_to_major ?d)" "set (minor_to_major ?d) = {0..<rank ?d}"
      "(32000000::nat) < 2 ^ 63"
    by (auto simp: rank_def)
  from C7_partition_independence [OF h, where conv = "\<lambda>S D v. v" and hardware_concurrency = 8
      and hardware_concurrency' = 2 and S = c_int32 and D = c_int32 and src_buffer = ?src
      and src_shape = ?s and dest_buffer = ?dest]
  obtain result where
    res: "CopyTensors (\<lambda>S D v. v) 8 c_int32 c_int32 ?src ?s ?dest 32000000 ?d = Some result"
      "CopyTensors (\<lambda>S D v. v) 2 c_int32 c_int32 ?src ?s ?dest 32000000 ?d = Some result"
    by blast
  from CopyTensors_transpose obtain r where
    r: "CopyTensors (\<lambda>S D v. v) 8 c_int32 c_int32 ?src ?s ?dest 32000000 ?d = Some (Inr r)"
      "length r = 8000000"
      "r ! 0 = 0" "r ! 2000010 = 82" "r ! 5000003 = 29" "r ! 7999999 = 7999999"
    by blast
  have "Some result = Some (Inr r)" by (rule trans [OF res(1) [symmetric] r(1)])
  then have "result = Inr r" by (simp only: option.inject)
  then have two: "CopyTensors (\<lambda>S D v. v) 2 c_int32 c_int32 ?src ?s ?dest 32000000 ?d = Some (Inr r)"
    using res(2) by (simp only:)
  show ?thesis
    by (intro conjI exI [of _ r] GetIterationDimensions_column_major CreateCopyPartitions_four
        CreateCopyPartitions_one r two)
qed

end
